theory Spec2Isabelle
  imports Complex_Main "HOL-Library.Product_Lexorder" "HOL-Library.Multiset"
begin

section \<open>Conflict resolution for overlapping entities\<close>

text \<open>
  Offsets are integer positions in the text, scores are the detector's confidence.
  The conflict resolver only compares scores and takes their maximum, so they are
  modelled as reals. \<open>end\<close> is reserved in Isabelle; the field is \<open>end'\<close>.
  \<open>EntityWithScore\<close> extends \<open>Interval\<close>, so the interval helpers below accept both,
  as the structural typing of the source does.
\<close>

record Interval =
  start :: int
  end' :: int

record EntityWithScore = Interval +
  score :: real
  entity_type :: string

definition overlaps :: "'a Interval_scheme \<Rightarrow> 'b Interval_scheme \<Rightarrow> bool" where
  "overlaps a b \<longleftrightarrow> start a < end' b \<and> start b < end' a"

definition isContainedIn :: "'a Interval_scheme \<Rightarrow> 'b Interval_scheme \<Rightarrow> bool" where
  "isContainedIn a b \<longleftrightarrow> start b \<le> start a \<and> end' b \<ge> end' a"

text \<open>
  A JavaScript \<open>Map\<close> keeps its keys in insertion order: \<open>set\<close> on a present key
  replaces the value in place, on a new key it appends the entry.
\<close>

fun Map_set :: "('k \<times> 'v) list \<Rightarrow> 'k \<Rightarrow> 'v \<Rightarrow> ('k \<times> 'v) list" where
  "Map_set [] k v = [(k, v)]"
| "Map_set ((k', v') # m) k v = (if k' = k then (k, v) # m else (k', v') # Map_set m k v)"

definition Map_values :: "('k \<times> 'v) list \<Rightarrow> 'v list" where
  "Map_values m = map snd m"

definition group_step ::
  "('a \<Rightarrow> string) \<Rightarrow> 'a \<Rightarrow> (string \<times> 'a list) list \<Rightarrow> (string \<times> 'a list) list" where
  "group_step keyFn item groups =
     (let key = keyFn item;
          group = (case map_of groups key of Some g \<Rightarrow> g | None \<Rightarrow> [])
      in Map_set groups key (group @ [item]))"

definition groupBy :: "'a list \<Rightarrow> ('a \<Rightarrow> string) \<Rightarrow> (string \<times> 'a list) list" where
  "groupBy items keyFn = fold (group_step keyFn) items []"

text \<open>
  \<open>Array.prototype.sort\<close> with a comparator is a stable sort: \<open>a\<close> stays before \<open>b\<close>
  unless the comparator says \<open>a\<close> is greater. Insertion from the right end gives the
  same list.
\<close>

fun insert_by :: "('a \<Rightarrow> 'a \<Rightarrow> real) \<Rightarrow> 'a \<Rightarrow> 'a list \<Rightarrow> 'a list" where
  "insert_by cmp x [] = [x]"
| "insert_by cmp x (y # ys) = (if cmp x y \<le> 0 then x # y # ys else y # insert_by cmp x ys)"

definition sort_by :: "('a \<Rightarrow> 'a \<Rightarrow> real) \<Rightarrow> 'a list \<Rightarrow> 'a list" where
  "sort_by cmp xs = foldr (insert_by cmp) xs []"

definition cmp_start :: "'a Interval_scheme \<Rightarrow> 'a Interval_scheme \<Rightarrow> real" where
  "cmp_start a b = of_int (start a - start b)"

definition merge_step ::
  "('a Interval_scheme \<Rightarrow> 'a Interval_scheme \<Rightarrow> 'a Interval_scheme) \<Rightarrow>
   'a Interval_scheme \<Rightarrow> 'a Interval_scheme list \<Rightarrow> 'a Interval_scheme list" where
  "merge_step merge current result =
     (let last = last result
      in if overlaps current last then butlast result @ [merge last current]
         else result @ [current])"

definition mergeOverlapping ::
  "'a Interval_scheme list \<Rightarrow>
   ('a Interval_scheme \<Rightarrow> 'a Interval_scheme \<Rightarrow> 'a Interval_scheme) \<Rightarrow>
   'a Interval_scheme list" where
  "mergeOverlapping intervals merge =
     (if length intervals \<le> 1 then intervals
      else let sorted = sort_by cmp_start intervals
           in fold (merge_step merge) (tl sorted) [hd sorted])"

definition cmp_conflict :: "EntityWithScore \<Rightarrow> EntityWithScore \<Rightarrow> real" where
  "cmp_conflict a b =
     (if start a \<noteq> start b then of_int (start a - start b)
      else if end' a \<noteq> end' b then of_int (end' a - end' b)
      else score b - score a)"

definition hasConflict :: "EntityWithScore \<Rightarrow> EntityWithScore list \<Rightarrow> bool" where
  "hasConflict entity result =
     list_ex (\<lambda>kept. if start entity = start kept \<and> end' entity = end' kept then True
                     else isContainedIn entity kept) result"

definition conflict_step :: "EntityWithScore \<Rightarrow> EntityWithScore list \<Rightarrow> EntityWithScore list" where
  "conflict_step entity result =
     (if \<not> hasConflict entity result then result @ [entity] else result)"

definition removeConflicting :: "EntityWithScore list \<Rightarrow> EntityWithScore list" where
  "removeConflicting entities =
     (if length entities \<le> 1 then entities
      else let sorted = sort_by cmp_conflict entities
           in fold conflict_step sorted [])"

definition merge_entities :: "EntityWithScore \<Rightarrow> EntityWithScore \<Rightarrow> EntityWithScore" where
  "merge_entities a b =
     a\<lparr>start := min (start a) (start b),
       end' := max (end' a) (end' b),
       score := max (score a) (score b)\<rparr>"

definition resolveConflicts :: "EntityWithScore list \<Rightarrow> EntityWithScore list" where
  "resolveConflicts entities =
     (if length entities \<le> 1 then entities
      else let byType = groupBy entities entity_type;
               afterMerge = fold (\<lambda>group acc. acc @ mergeOverlapping group merge_entities)
                                 (Map_values byType) []
           in removeConflicting afterMerge)"

definition cmp_simple :: "'a Interval_scheme \<Rightarrow> 'a Interval_scheme \<Rightarrow> real" where
  "cmp_simple a b =
     (if start a \<noteq> start b then of_int (start a - start b)
      else of_int (end' b - start b - (end' a - start a)))"

definition simple_step :: "'a Interval_scheme \<Rightarrow> 'a Interval_scheme list \<Rightarrow> 'a Interval_scheme list" where
  "simple_step current result =
     (let last = last result
      in if start current \<ge> end' last then result @ [current] else result)"

definition resolveConflictsSimple :: "'a Interval_scheme list \<Rightarrow> 'a Interval_scheme list" where
  "resolveConflictsSimple entities =
     (if length entities \<le> 1 then entities
      else let sorted = sort_by cmp_simple entities
           in fold simple_step (tl sorted) [hd sorted])"

section \<open>Routing decision\<close>

datatype provider = upstream | local

datatype secrets_action = block | redact | route_local

record SecretsMatch =
  type :: string
  count :: nat

record SecretsRedaction = Interval +
  redaction_type :: string

record SecretsDetectionResult =
  detected :: bool
  matches :: "SecretsMatch list"
  redactions :: "SecretsRedaction list"

record PIIDetectionResult =
  hasPII :: bool
  newEntities :: "EntityWithScore list"
  entitiesByMessage :: "EntityWithScore list list"
  language :: string
  languageFallback :: bool
  scanTimeMs :: real

record routing_config =
  default :: provider
  on_pii_detected :: provider

record route_decision =
  provider :: provider
  reason :: string

text \<open>\<open>Array.prototype.join\<close> on strings.\<close>

fun join :: "string \<Rightarrow> string list \<Rightarrow> string" where
  "join sep [] = []"
| "join sep [x] = x"
| "join sep (x # y # ys) = x @ sep @ join sep (y # ys)"

text \<open>
  \<open>[...new Set(xs)]\<close>: a \<open>Set\<close> built from an array adds the elements one by one,
  ignores an element it already holds, and iterates in insertion order.
\<close>

definition Set_add :: "'a \<Rightarrow> 'a list \<Rightarrow> 'a list" where
  "Set_add x s = (if x \<in> set s then s else s @ [x])"

definition Set_spread :: "'a list \<Rightarrow> 'a list" where
  "Set_spread xs = fold Set_add xs []"

definition secretsDetected :: "SecretsDetectionResult option \<Rightarrow> bool" where
  \<comment> \<open>\<open>secretsResult?.detected\<close>: undefined, hence falsy, without a secrets result\<close>
  "secretsDetected secretsResult = (case secretsResult of None \<Rightarrow> False | Some s \<Rightarrow> detected s)"

definition decideRoute ::
  "PIIDetectionResult \<Rightarrow> routing_config \<Rightarrow> SecretsDetectionResult option \<Rightarrow>
   secrets_action option \<Rightarrow> route_decision" where
  "decideRoute piiResult routing secretsResult secretsAction =
     (if secretsDetected secretsResult \<and> secretsAction = Some route_local
      then let secretTypes = map type (case secretsResult of None \<Rightarrow> [] | Some s \<Rightarrow> matches s)
           in \<lparr>provider = local,
               reason = ''Secrets detected (route_local): '' @ join '', '' secretTypes\<rparr>
      else if hasPII piiResult
      then let entityTypes = Set_spread (map entity_type (newEntities piiResult))
           in \<lparr>provider = on_pii_detected routing,
               reason = ''PII detected: '' @ join '', '' entityTypes\<rparr>
      else \<lparr>provider = default routing, reason = ''No PII detected''\<rparr>)"

section \<open>Stream rewriting\<close>

subsection \<open>JavaScript values read from JSON\<close>

text \<open>
  A value as \<open>JSON.parse\<close> returns it. A number is held as the text JavaScript prints
  for it (\<open>0\<close> for zero of either sign), which is all the stream rewriter observes: it
  tests a number for truthiness and prints it again. An object is the list of its own
  properties in insertion order. Text is a list of code units; \<open>char\<close> holds the code
  units up to \<open>0xFF\<close>.
\<close>

datatype json =
    JNull
  | JBool bool
  | JNum string
  | JStr string
  | JArr "json list"
  | JObj "(string \<times> json) list"

abbreviation nl :: string where
  "nl \<equiv> [CHR 0x0A]"

fun js_truthy :: "json \<Rightarrow> bool" where
  "js_truthy JNull = False"
| "js_truthy (JBool b) = b"
| "js_truthy (JNum t) = (t \<noteq> ''0'')"
| "js_truthy (JStr s) = (s \<noteq> [])"
| "js_truthy (JArr xs) = True"
| "js_truthy (JObj kvs) = True"

text \<open>
  Reading a property: \<open>None\<close> is \<open>undefined\<close>. The names read here (\<open>choices\<close>,
  \<open>delta\<close>, \<open>content\<close>) are own properties of objects only; arrays, strings, numbers
  and booleans have no property of these names. Index \<open>0\<close> reads the first element of
  an array, the property \<open>0\<close> of an object and the first code unit of a string.
\<close>

fun get_prop :: "string \<Rightarrow> json \<Rightarrow> json option" where
  "get_prop k (JObj kvs) = map_of kvs k"
| "get_prop k v = None"

fun get_index0 :: "json \<Rightarrow> json option" where
  "get_index0 (JArr xs) = (case xs of [] \<Rightarrow> None | x # _ \<Rightarrow> Some x)"
| "get_index0 (JObj kvs) = map_of kvs ''0''"
| "get_index0 (JStr s) = (case s of [] \<Rightarrow> None | c # _ \<Rightarrow> Some (JStr [c]))"
| "get_index0 v = None"

definition opt_chain :: "(json \<Rightarrow> json option) \<Rightarrow> json option \<Rightarrow> json option" where
  \<comment> \<open>\<open>v?.p\<close>: \<open>undefined\<close> when \<open>v\<close> is \<open>undefined\<close> or \<open>null\<close>\<close>
  "opt_chain f v = (case v of None \<Rightarrow> None | Some JNull \<Rightarrow> None | Some x \<Rightarrow> f x)"

definition read_content :: "json \<Rightarrow> json option" where
  \<comment> \<open>\<open>parsed.choices?.[0]?.delta?.content || ""\<close>; \<open>None\<close> is the \<open>TypeError\<close> of
      reading a property of \<open>null\<close>\<close>
  "read_content parsed =
     (case parsed of
        JNull \<Rightarrow> None
      | _ \<Rightarrow>
        (case opt_chain (get_prop ''content'')
                (opt_chain (get_prop ''delta'')
                   (opt_chain get_index0 (get_prop ''choices'' parsed))) of
           None \<Rightarrow> Some (JStr [])
         | Some c \<Rightarrow> Some (if js_truthy c then c else JStr [])))"

fun set_prop :: "string \<Rightarrow> json \<Rightarrow> json \<Rightarrow> json" where
  "set_prop k v (JObj kvs) = JObj (Map_set kvs k v)"
| "set_prop k v j = j"

fun set_index0 :: "json \<Rightarrow> json \<Rightarrow> json" where
  "set_index0 v (JArr xs) = (case xs of [] \<Rightarrow> JArr [v] | _ # ys \<Rightarrow> JArr (v # ys))"
| "set_index0 v (JObj kvs) = JObj (Map_set kvs ''0'' v)"
| "set_index0 v j = j"

definition set_content :: "json \<Rightarrow> json \<Rightarrow> json" where
  \<comment> \<open>\<open>parsed.choices[0].delta.content = v\<close>, reached only when the content read
      before was truthy, so that the path exists; the objects on the path are rebuilt\<close>
  "set_content parsed v =
     (case get_prop ''choices'' parsed of
        None \<Rightarrow> parsed
      | Some choices \<Rightarrow>
        (case get_index0 choices of
           None \<Rightarrow> parsed
         | Some choice \<Rightarrow>
           (case get_prop ''delta'' choice of
              None \<Rightarrow> parsed
            | Some delta \<Rightarrow>
                set_prop ''choices''
                  (set_index0 (set_prop ''delta'' (set_prop ''content'' v delta) choice) choices)
                  parsed)))"

subsection \<open>The runtime and the masking helpers\<close>

text \<open>
  \<open>JSON.parse\<close> (\<open>None\<close> when it throws), \<open>JSON.stringify\<close>, the two readings
  of \<open>Date.now()\<close> made for the flush event, and the four helpers imported from the
  masking and redaction modules are parameters of the stream rewriter. A helper
  receives the content as the value it is at run time.
\<close>

record ('pc, 'cfg, 'sc) runtime =
  JSON_parse :: "string \<Rightarrow> json option"
  JSON_stringify :: "json \<Rightarrow> string"
  Date_now_id :: nat
  Date_now_created :: nat
  unmaskStreamChunk :: "string \<Rightarrow> json \<Rightarrow> 'pc \<Rightarrow> 'cfg \<Rightarrow> string \<times> string"
  flushStreamBuffer :: "string \<Rightarrow> 'pc \<Rightarrow> 'cfg \<Rightarrow> string"
  unredactStreamChunk :: "string \<Rightarrow> json \<Rightarrow> 'sc \<Rightarrow> string \<times> string"
  flushRedactionBuffer :: "string \<Rightarrow> 'sc \<Rightarrow> string"

subsection \<open>createUnmaskingStream\<close>

record stream_state =
  piiBuffer :: string
  secretsBuffer :: string

text \<open>\<open>chunk.split("\n")\<close>: every newline separates two lines, so the list is never empty.\<close>

fun split_nl :: "string \<Rightarrow> string list" where
  "split_nl [] = [[]]"
| "split_nl (c # cs) =
     (if c = CHR 0x0A then [] # split_nl cs
      else (case split_nl cs of [] \<Rightarrow> [[c]] | l # ls \<Rightarrow> (c # l) # ls))"

definition js_whitespace :: "char \<Rightarrow> bool" where
  \<comment> \<open>the code units \<open>trim\<close> removes, among those up to \<open>0xFF\<close>\<close>
  "js_whitespace c \<longleftrightarrow>
     c \<in> set [CHR 0x09, CHR 0x0A, CHR 0x0B, CHR 0x0C, CHR 0x0D, CHR 0x20, CHR 0xA0]"

definition trim_truthy :: "string \<Rightarrow> bool" where
  \<comment> \<open>\<open>line.trim()\<close> is a non-empty string\<close>
  "trim_truthy line \<longleftrightarrow> list_ex (\<lambda>c. \<not> js_whitespace c) line"

definition startsWith :: "string \<Rightarrow> string \<Rightarrow> bool" where
  "startsWith line p \<longleftrightarrow> take (length p) line = p"

definition digit_char :: "nat \<Rightarrow> char" where
  "digit_char n = (if n < 16 then ''0123456789abcdef'' ! n else CHR ''?'')"

fun string_of_nat :: "nat \<Rightarrow> string" where
  "string_of_nat n =
     (if n < 10 then [digit_char n]
      else string_of_nat (n div 10) @ [digit_char (n mod 10)])"

definition finalEvent :: "('pc, 'cfg, 'sc) runtime \<Rightarrow> string \<Rightarrow> json" where
  "finalEvent rt flushed =
     JObj [(''id'', JStr (''flush-'' @ string_of_nat (Date_now_id rt))),
           (''object'', JStr ''chat.completion.chunk''),
           (''created'', JNum (string_of_nat (Date_now_created rt div 1000))),
           (''choices'',
              JArr [JObj [(''index'', JNum ''0''),
                          (''delta'', JObj [(''content'', JStr flushed)]),
                          (''finish_reason'', JNull)]])]"

definition flush_stream ::
  "('pc, 'cfg, 'sc) runtime \<Rightarrow> 'pc option \<Rightarrow> 'cfg \<Rightarrow> 'sc option \<Rightarrow> stream_state \<Rightarrow> string list" where
  "flush_stream rt piiContext config secretsContext st =
     (let flushed =
            (if piiBuffer st \<noteq> [] \<and> piiContext \<noteq> None
             then (case piiContext of
                     Some pc \<Rightarrow> flushStreamBuffer rt (piiBuffer st) pc config
                   | None \<Rightarrow> [])
             else if piiBuffer st \<noteq> [] then piiBuffer st
             else []);
          flushed =
            (if secretsBuffer st \<noteq> [] \<and> secretsContext \<noteq> None
             then (case secretsContext of
                     Some sc \<Rightarrow> flushed @ flushRedactionBuffer rt (secretsBuffer st) sc
                   | None \<Rightarrow> flushed)
             else if secretsBuffer st \<noteq> [] then flushed @ secretsBuffer st
             else flushed)
      in if flushed \<noteq> []
         then [''data: '' @ JSON_stringify rt (finalEvent rt flushed) @ nl @ nl]
         else [])"

definition process_content ::
  "('pc, 'cfg, 'sc) runtime \<Rightarrow> 'pc option \<Rightarrow> 'cfg \<Rightarrow> 'sc option \<Rightarrow> stream_state \<Rightarrow>
   json \<Rightarrow> json \<Rightarrow> string list \<times> stream_state" where
  "process_content rt piiContext config secretsContext st parsed content =
     (let (st, processedContent) =
            (case piiContext of
               Some pc \<Rightarrow>
                 (let (output, remainingBuffer) =
                        unmaskStreamChunk rt (piiBuffer st) content pc config
                  in (st\<lparr>piiBuffer := remainingBuffer\<rparr>, JStr output))
             | None \<Rightarrow> (st, content));
          (st, processedContent) =
            (case secretsContext of
               Some sc \<Rightarrow>
                 (if js_truthy processedContent
                  then (let (output, remainingBuffer) =
                              unredactStreamChunk rt (secretsBuffer st) processedContent sc
                        in (st\<lparr>secretsBuffer := remainingBuffer\<rparr>, JStr output))
                  else (st, processedContent))
             | None \<Rightarrow> (st, processedContent))
      in if js_truthy processedContent
         then ([''data: '' @ JSON_stringify rt (set_content parsed processedContent) @ nl @ nl], st)
         else ([], st))"

definition process_line ::
  "('pc, 'cfg, 'sc) runtime \<Rightarrow> 'pc option \<Rightarrow> 'cfg \<Rightarrow> 'sc option \<Rightarrow> stream_state \<Rightarrow>
   string \<Rightarrow> string list \<times> stream_state" where
  "process_line rt piiContext config secretsContext st line =
     (if startsWith line ''data: ''
      then let data = drop 6 line
           in if data = ''[DONE]'' then ([''data: [DONE]'' @ nl @ nl], st)
              else (case JSON_parse rt data of
                      None \<Rightarrow> ([line @ nl], st)
                    | Some parsed \<Rightarrow>
                      (case read_content parsed of
                         None \<Rightarrow> ([line @ nl], st)
                       | Some content \<Rightarrow>
                           if js_truthy content
                           then process_content rt piiContext config secretsContext st
                                  parsed content
                           else ([''data: '' @ data @ nl @ nl], st)))
      else if trim_truthy line then ([line @ nl], st)
      else ([], st))"

fun process_lines ::
  "('pc, 'cfg, 'sc) runtime \<Rightarrow> 'pc option \<Rightarrow> 'cfg \<Rightarrow> 'sc option \<Rightarrow> stream_state \<Rightarrow>
   string list \<Rightarrow> string list \<times> stream_state" where
  "process_lines rt piiContext config secretsContext st [] = ([], st)"
| "process_lines rt piiContext config secretsContext st (line # lines) =
     (let (out, st) = process_line rt piiContext config secretsContext st line;
          (outs, st) = process_lines rt piiContext config secretsContext st lines
      in (out @ outs, st))"

definition process_chunk ::
  "('pc, 'cfg, 'sc) runtime \<Rightarrow> 'pc option \<Rightarrow> 'cfg \<Rightarrow> 'sc option \<Rightarrow> stream_state \<Rightarrow>
   string \<Rightarrow> string list \<times> stream_state" where
  "process_chunk rt piiContext config secretsContext st chunk =
     process_lines rt piiContext config secretsContext st (split_nl chunk)"

fun process_chunks ::
  "('pc, 'cfg, 'sc) runtime \<Rightarrow> 'pc option \<Rightarrow> 'cfg \<Rightarrow> 'sc option \<Rightarrow> stream_state \<Rightarrow>
   string list \<Rightarrow> string list \<times> stream_state" where
  \<comment> \<open>what a run of successive chunks enqueues, and the buffers after it\<close>
  "process_chunks rt piiContext config secretsContext st [] = ([], st)"
| "process_chunks rt piiContext config secretsContext st (chunk # chunks) =
     (let (out, st) = process_chunk rt piiContext config secretsContext st chunk;
          (outs, st) = process_chunks rt piiContext config secretsContext st chunks
      in (out @ outs, st))"

text \<open>
  The source stream is the list of the results of its successive \<open>read()\<close> calls: a
  chunk (as the text the decoder makes of it), the end of the stream, or the error the
  read is rejected with. The output stream is the list of the strings enqueued and
  how the stream ended; \<open>Pending\<close> is the rewriter waiting for a read that the list
  does not hold.
\<close>

datatype 'e read_result = Value string | Done | Rejected 'e

datatype 'e stream_status = Closed | Errored 'e | Pending

fun pump ::
  "('pc, 'cfg, 'sc) runtime \<Rightarrow> 'pc option \<Rightarrow> 'cfg \<Rightarrow> 'sc option \<Rightarrow> stream_state \<Rightarrow>
   'e read_result list \<Rightarrow> string list \<times> 'e stream_status" where
  "pump rt piiContext config secretsContext st [] = ([], Pending)"
| "pump rt piiContext config secretsContext st (Done # reads) =
     (flush_stream rt piiContext config secretsContext st, Closed)"
| "pump rt piiContext config secretsContext st (Rejected error # reads) = ([], Errored error)"
| "pump rt piiContext config secretsContext st (Value chunk # reads) =
     (let (out, st) = process_chunk rt piiContext config secretsContext st chunk;
          (outs, status) = pump rt piiContext config secretsContext st reads
      in (out @ outs, status))"

definition createUnmaskingStream ::
  "('pc, 'cfg, 'sc) runtime \<Rightarrow> 'e read_result list \<Rightarrow> 'pc option \<Rightarrow> 'cfg \<Rightarrow> 'sc option \<Rightarrow>
   string list \<times> 'e stream_status" where
  "createUnmaskingStream rt source piiContext config secretsContext =
     pump rt piiContext config secretsContext \<lparr>piiBuffer = [], secretsBuffer = []\<rparr> source"

subsection \<open>Line ends\<close>

text \<open>
  A chunk ends at a line end when it is empty or its last character is a newline: the
  rewriter splits every chunk at the newlines on its own and carries no part of a line
  from one chunk to the next.
\<close>

definition line_aligned :: "string \<Rightarrow> bool" where
  "line_aligned chunk \<longleftrightarrow> chunk = [] \<or> last chunk = CHR 0x0A"

subsection \<open>What the output stream carries\<close>

text \<open>
  The rewriter gives the controller strings of two kinds: a line of the input
  forwarded with its new framing, and an event \<open>data: \<close> followed by the
  \<open>JSON.stringify\<close> text of an envelope and two newlines. The functions below follow
  \<open>process_content\<close>, \<open>process_line\<close>, \<open>process_lines\<close> and \<open>flush_stream\<close> and
  keep the envelope of an event instead of its text, so that the content an event
  carries can be read from the envelope.
\<close>

datatype enqueued = Forwarded string | Event json

fun render :: "('pc, 'cfg, 'sc) runtime \<Rightarrow> enqueued \<Rightarrow> string" where
  "render rt (Forwarded s) = s"
| "render rt (Event j) = ''data: '' @ JSON_stringify rt j @ nl @ nl"

definition content_steps ::
  "('pc, 'cfg, 'sc) runtime \<Rightarrow> 'pc option \<Rightarrow> 'cfg \<Rightarrow> 'sc option \<Rightarrow> stream_state \<Rightarrow>
   json \<Rightarrow> stream_state \<times> json" where
  "content_steps rt piiContext config secretsContext st content =
     (let (st, processedContent) =
            (case piiContext of
               Some pc \<Rightarrow>
                 (let (output, remainingBuffer) =
                        unmaskStreamChunk rt (piiBuffer st) content pc config
                  in (st\<lparr>piiBuffer := remainingBuffer\<rparr>, JStr output))
             | None \<Rightarrow> (st, content));
          (st, processedContent) =
            (case secretsContext of
               Some sc \<Rightarrow>
                 (if js_truthy processedContent
                  then (let (output, remainingBuffer) =
                              unredactStreamChunk rt (secretsBuffer st) processedContent sc
                        in (st\<lparr>secretsBuffer := remainingBuffer\<rparr>, JStr output))
                  else (st, processedContent))
             | None \<Rightarrow> (st, processedContent))
      in (st, processedContent))"

definition content_items ::
  "('pc, 'cfg, 'sc) runtime \<Rightarrow> 'pc option \<Rightarrow> 'cfg \<Rightarrow> 'sc option \<Rightarrow> stream_state \<Rightarrow>
   json \<Rightarrow> json \<Rightarrow> enqueued list \<times> stream_state" where
  "content_items rt piiContext config secretsContext st parsed content =
     (let (st, processedContent) = content_steps rt piiContext config secretsContext st content
      in if js_truthy processedContent
         then ([Event (set_content parsed processedContent)], st)
         else ([], st))"

definition line_items ::
  "('pc, 'cfg, 'sc) runtime \<Rightarrow> 'pc option \<Rightarrow> 'cfg \<Rightarrow> 'sc option \<Rightarrow> stream_state \<Rightarrow>
   string \<Rightarrow> enqueued list \<times> stream_state" where
  "line_items rt piiContext config secretsContext st line =
     (if startsWith line ''data: ''
      then let data = drop 6 line
           in if data = ''[DONE]'' then ([Forwarded (''data: [DONE]'' @ nl @ nl)], st)
              else (case JSON_parse rt data of
                      None \<Rightarrow> ([Forwarded (line @ nl)], st)
                    | Some parsed \<Rightarrow>
                      (case read_content parsed of
                         None \<Rightarrow> ([Forwarded (line @ nl)], st)
                       | Some content \<Rightarrow>
                           if js_truthy content
                           then content_items rt piiContext config secretsContext st
                                  parsed content
                           else ([Forwarded (''data: '' @ data @ nl @ nl)], st)))
      else if trim_truthy line then ([Forwarded (line @ nl)], st)
      else ([], st))"

fun lines_items ::
  "('pc, 'cfg, 'sc) runtime \<Rightarrow> 'pc option \<Rightarrow> 'cfg \<Rightarrow> 'sc option \<Rightarrow> stream_state \<Rightarrow>
   string list \<Rightarrow> enqueued list \<times> stream_state" where
  "lines_items rt piiContext config secretsContext st [] = ([], st)"
| "lines_items rt piiContext config secretsContext st (line # lines) =
     (let (out, st) = line_items rt piiContext config secretsContext st line;
          (outs, st) = lines_items rt piiContext config secretsContext st lines
      in (out @ outs, st))"

definition flush_text ::
  "('pc, 'cfg, 'sc) runtime \<Rightarrow> 'pc option \<Rightarrow> 'cfg \<Rightarrow> 'sc option \<Rightarrow> stream_state \<Rightarrow> string" where
  "flush_text rt piiContext config secretsContext st =
     (let flushed =
            (if piiBuffer st \<noteq> [] \<and> piiContext \<noteq> None
             then (case piiContext of
                     Some pc \<Rightarrow> flushStreamBuffer rt (piiBuffer st) pc config
                   | None \<Rightarrow> [])
             else if piiBuffer st \<noteq> [] then piiBuffer st
             else []);
          flushed =
            (if secretsBuffer st \<noteq> [] \<and> secretsContext \<noteq> None
             then (case secretsContext of
                     Some sc \<Rightarrow> flushed @ flushRedactionBuffer rt (secretsBuffer st) sc
                   | None \<Rightarrow> flushed)
             else if secretsBuffer st \<noteq> [] then flushed @ secretsBuffer st
             else flushed)
      in flushed)"

definition flush_items ::
  "('pc, 'cfg, 'sc) runtime \<Rightarrow> 'pc option \<Rightarrow> 'cfg \<Rightarrow> 'sc option \<Rightarrow> stream_state \<Rightarrow>
   enqueued list" where
  "flush_items rt piiContext config secretsContext st =
     (let flushed = flush_text rt piiContext config secretsContext st
      in if flushed \<noteq> [] then [Event (finalEvent rt flushed)] else [])"

definition content_part ::
  "('pc, 'cfg, 'sc) runtime \<Rightarrow> 'pc option \<Rightarrow> 'cfg \<Rightarrow> 'sc option \<Rightarrow> string \<Rightarrow> enqueued list" where
  \<comment> \<open>what a stream, given whole, makes the rewriter enqueue before the flush\<close>
  "content_part rt piiContext config secretsContext stream =
     fst (lines_items rt piiContext config secretsContext
            \<lparr>piiBuffer = [], secretsBuffer = []\<rparr> (split_nl stream))"

definition buffers_at_end ::
  "('pc, 'cfg, 'sc) runtime \<Rightarrow> 'pc option \<Rightarrow> 'cfg \<Rightarrow> 'sc option \<Rightarrow> string \<Rightarrow> stream_state" where
  "buffers_at_end rt piiContext config secretsContext stream =
     snd (process_chunk rt piiContext config secretsContext
            \<lparr>piiBuffer = [], secretsBuffer = []\<rparr> stream)"

definition stream_items ::
  "('pc, 'cfg, 'sc) runtime \<Rightarrow> 'pc option \<Rightarrow> 'cfg \<Rightarrow> 'sc option \<Rightarrow> string \<Rightarrow> enqueued list" where
  "stream_items rt piiContext config secretsContext stream =
     content_part rt piiContext config secretsContext stream
     @ flush_items rt piiContext config secretsContext
         (buffers_at_end rt piiContext config secretsContext stream)"

text \<open>
  The text a line carries, as the rewriter reads it: the string content of a data line
  that parses, nothing for any other line. The text of a stream is the text of its
  lines; the text delivered by what was enqueued is the content of the envelopes of
  the events and the text of the forwarded lines. A line is a text line unless its
  content is truthy and not a string.
\<close>

definition line_content :: "('pc, 'cfg, 'sc) runtime \<Rightarrow> string \<Rightarrow> string" where
  "line_content rt line =
     (if startsWith line ''data: '' \<and> drop 6 line \<noteq> ''[DONE]''
      then (case JSON_parse rt (drop 6 line) of
              None \<Rightarrow> []
            | Some parsed \<Rightarrow>
              (case read_content parsed of Some (JStr m) \<Rightarrow> m | _ \<Rightarrow> []))
      else [])"

definition stream_text :: "('pc, 'cfg, 'sc) runtime \<Rightarrow> string \<Rightarrow> string" where
  "stream_text rt stream = concat (map (line_content rt) (split_nl stream))"

fun item_content :: "('pc, 'cfg, 'sc) runtime \<Rightarrow> enqueued \<Rightarrow> string" where
  "item_content rt (Forwarded s) = stream_text rt s"
| "item_content rt (Event j) = (case read_content j of Some (JStr m) \<Rightarrow> m | _ \<Rightarrow> [])"

definition delivered :: "('pc, 'cfg, 'sc) runtime \<Rightarrow> enqueued list \<Rightarrow> string" where
  "delivered rt items = concat (map (item_content rt) items)"

definition text_line :: "('pc, 'cfg, 'sc) runtime \<Rightarrow> string \<Rightarrow> bool" where
  "text_line rt line \<longleftrightarrow>
     (if startsWith line ''data: '' \<and> drop 6 line \<noteq> ''[DONE]''
      then (case JSON_parse rt (drop 6 line) of
              None \<Rightarrow> True
            | Some parsed \<Rightarrow>
              (case read_content parsed of
                 None \<Rightarrow> True
               | Some (JStr m) \<Rightarrow> True
               | Some content \<Rightarrow> \<not> js_truthy content))
      else True)"

text \<open>
  The contract of a masking step with respect to a function \<open>U\<close> on whole texts: what
  a step outputs, followed by \<open>U\<close> of what it withholds and of any text that follows,
  is \<open>U\<close> of buffer, content and that text; the flush of a buffer is \<open>U\<close> of it.
  Without a context the content is left as it is, and \<open>U\<close> is the identity.
\<close>

definition pii_step_meets ::
  "('pc, 'cfg, 'sc) runtime \<Rightarrow> 'pc option \<Rightarrow> 'cfg \<Rightarrow> (string \<Rightarrow> string) \<Rightarrow> bool" where
  "pii_step_meets rt piiContext config U \<longleftrightarrow>
     U [] = [] \<and>
     (case piiContext of
        None \<Rightarrow> (\<forall>s. U s = s)
      | Some pc \<Rightarrow>
          (\<forall>b c f. fst (unmaskStreamChunk rt b (JStr c) pc config)
                     @ U (snd (unmaskStreamChunk rt b (JStr c) pc config) @ f) = U (b @ c @ f))
          \<and> (\<forall>b. b \<noteq> [] \<longrightarrow> flushStreamBuffer rt b pc config = U b))"

definition secrets_step_meets ::
  "('pc, 'cfg, 'sc) runtime \<Rightarrow> 'sc option \<Rightarrow> (string \<Rightarrow> string) \<Rightarrow> bool" where
  "secrets_step_meets rt secretsContext U \<longleftrightarrow>
     U [] = [] \<and>
     (case secretsContext of
        None \<Rightarrow> (\<forall>s. U s = s)
      | Some sc \<Rightarrow>
          (\<forall>b c f. fst (unredactStreamChunk rt b (JStr c) sc)
                     @ U (snd (unredactStreamChunk rt b (JStr c) sc) @ f) = U (b @ c @ f))
          \<and> (\<forall>b. b \<noteq> [] \<longrightarrow> flushRedactionBuffer rt b sc = U b))"

definition buffers_used :: "'pc option \<Rightarrow> 'sc option \<Rightarrow> stream_state \<Rightarrow> bool" where
  \<comment> \<open>a buffer is empty when its context is not configured\<close>
  "buffers_used piiContext secretsContext st \<longleftrightarrow>
     (piiContext = None \<longrightarrow> piiBuffer st = []) \<and> (secretsContext = None \<longrightarrow> secretsBuffer st = [])"

definition content_chain :: "json \<Rightarrow> json option" where
  \<comment> \<open>\<open>parsed.choices?.[0]?.delta?.content\<close>\<close>
  "content_chain parsed =
     opt_chain (get_prop ''content'')
       (opt_chain (get_prop ''delta'') (opt_chain get_index0 (get_prop ''choices'' parsed)))"

subsection \<open>A reference runtime\<close>

text \<open>
  A JSON reader and writer for the examples: objects, arrays, strings with the
  two-character escapes, \<open>true\<close>, \<open>false\<close>, \<open>null\<close> and integer literals of up to 15
  digits. Numbers with a fraction or an exponent, longer integers and \<open>\u\<close> escapes in
  the input are outside this fragment and are reported as a failure; no example uses
  them. The reader takes fuel, one unit for every value, element and member.
\<close>

definition json_ws :: "char \<Rightarrow> bool" where
  "json_ws c \<longleftrightarrow> c \<in> set [CHR 0x20, CHR 0x09, CHR 0x0A, CHR 0x0D]"

definition skip_ws :: "string \<Rightarrow> string" where
  "skip_ws s = dropWhile json_ws s"

definition is_digit :: "char \<Rightarrow> bool" where
  "is_digit c \<longleftrightarrow> c \<in> set ''0123456789''"

definition unescape :: "char \<Rightarrow> char option" where
  "unescape e =
     (if e = CHR 0x22 then Some (CHR 0x22)
      else if e = CHR 0x5C then Some (CHR 0x5C)
      else if e = CHR ''/'' then Some (CHR ''/'')
      else if e = CHR ''b'' then Some (CHR 0x08)
      else if e = CHR ''f'' then Some (CHR 0x0C)
      else if e = CHR ''n'' then Some (CHR 0x0A)
      else if e = CHR ''r'' then Some (CHR 0x0D)
      else if e = CHR ''t'' then Some (CHR 0x09)
      else None)"

fun read_string :: "string \<Rightarrow> (string \<times> string) option" where
  "read_string [] = None"
| "read_string (c # cs) =
     (if c = CHR 0x22 then Some ([], cs)
      else if c = CHR 0x5C then
        (case cs of
           [] \<Rightarrow> None
         | e # r \<Rightarrow>
           (case unescape e of
              None \<Rightarrow> None
            | Some d \<Rightarrow>
              (case read_string r of
                 None \<Rightarrow> None
               | Some (s, rest) \<Rightarrow> Some (d # s, rest))))
      else if (of_char c :: nat) < 32 then None
      else (case read_string cs of
              None \<Rightarrow> None
            | Some (s, rest) \<Rightarrow> Some (c # s, rest)))"

definition read_number :: "string \<Rightarrow> (json \<times> string) option" where
  "read_number s =
     (let negative = (s \<noteq> [] \<and> hd s = CHR ''-'');
          body = (if negative then tl s else s);
          digits = takeWhile is_digit body;
          rest = dropWhile is_digit body
      in if digits = [] \<or> 15 < length digits then None
         else if 1 < length digits \<and> hd digits = CHR ''0'' then None
         else if rest \<noteq> [] \<and> hd rest \<in> set ''.eE'' then None
         else Some (JNum (if negative \<and> digits \<noteq> ''0'' then CHR ''-'' # digits else digits),
                    rest))"

definition own_properties :: "(string \<times> json) list \<Rightarrow> (string \<times> json) list" where
  \<comment> \<open>a repeated name keeps its first place and its last value\<close>
  "own_properties kvs = fold (\<lambda>(k, v) m. Map_set m k v) kvs []"

fun read_value :: "nat \<Rightarrow> string \<Rightarrow> (json \<times> string) option"
  and read_elements :: "nat \<Rightarrow> string \<Rightarrow> (json list \<times> string) option"
  and read_members :: "nat \<Rightarrow> string \<Rightarrow> ((string \<times> json) list \<times> string) option" where
  "read_value 0 s = None"
| "read_value (Suc n) s =
     (case skip_ws s of
        [] \<Rightarrow> None
      | c # cs \<Rightarrow>
          if c = CHR 0x22 then
            (case read_string cs of None \<Rightarrow> None | Some (t, rest) \<Rightarrow> Some (JStr t, rest))
          else if c = CHR ''['' then
            (if startsWith (skip_ws cs) '']'' then Some (JArr [], tl (skip_ws cs))
             else (case read_elements n cs of
                     None \<Rightarrow> None
                   | Some (vs, rest) \<Rightarrow> Some (JArr vs, rest)))
          else if c = CHR ''{'' then
            (if startsWith (skip_ws cs) ''}'' then Some (JObj [], tl (skip_ws cs))
             else (case read_members n cs of
                     None \<Rightarrow> None
                   | Some (kvs, rest) \<Rightarrow> Some (JObj (own_properties kvs), rest)))
          else if startsWith (c # cs) ''null'' then Some (JNull, drop 4 (c # cs))
          else if startsWith (c # cs) ''true'' then Some (JBool True, drop 4 (c # cs))
          else if startsWith (c # cs) ''false'' then Some (JBool False, drop 5 (c # cs))
          else read_number (c # cs))"
| "read_elements 0 s = None"
| "read_elements (Suc n) s =
     (case read_value n s of
        None \<Rightarrow> None
      | Some (v, rest) \<Rightarrow>
        (case skip_ws rest of
           [] \<Rightarrow> None
         | d # rest' \<Rightarrow>
             if d = CHR '','' then
               (case read_elements n rest' of
                  None \<Rightarrow> None
                | Some (vs, rest'') \<Rightarrow> Some (v # vs, rest''))
             else if d = CHR '']'' then Some ([v], rest')
             else None))"
| "read_members 0 s = None"
| "read_members (Suc n) s =
     (case skip_ws s of
        [] \<Rightarrow> None
      | q # s1 \<Rightarrow>
          if q \<noteq> CHR 0x22 then None
          else (case read_string s1 of
                  None \<Rightarrow> None
                | Some (k, s2) \<Rightarrow>
                  (case skip_ws s2 of
                     [] \<Rightarrow> None
                   | colon # s3 \<Rightarrow>
                       if colon \<noteq> CHR '':'' then None
                       else (case read_value n s3 of
                               None \<Rightarrow> None
                             | Some (v, s4) \<Rightarrow>
                               (case skip_ws s4 of
                                  [] \<Rightarrow> None
                                | d # s5 \<Rightarrow>
                                    if d = CHR '','' then
                                      (case read_members n s5 of
                                         None \<Rightarrow> None
                                       | Some (kvs, s6) \<Rightarrow> Some ((k, v) # kvs, s6))
                                    else if d = CHR ''}'' then Some ([(k, v)], s5)
                                    else None)))))"

definition ref_parse :: "string \<Rightarrow> json option" where
  "ref_parse s =
     (case read_value (Suc (length s)) s of
        None \<Rightarrow> None
      | Some (v, rest) \<Rightarrow> if skip_ws rest = [] then Some v else None)"

definition escape_char :: "char \<Rightarrow> string" where
  "escape_char c =
     (if c = CHR 0x22 then [CHR 0x5C, CHR 0x22]
      else if c = CHR 0x5C then [CHR 0x5C, CHR 0x5C]
      else if c = CHR 0x08 then [CHR 0x5C, CHR ''b'']
      else if c = CHR 0x0C then [CHR 0x5C, CHR ''f'']
      else if c = CHR 0x0A then [CHR 0x5C, CHR ''n'']
      else if c = CHR 0x0D then [CHR 0x5C, CHR ''r'']
      else if c = CHR 0x09 then [CHR 0x5C, CHR ''t'']
      else if (of_char c :: nat) < 32
        then [CHR 0x5C, CHR ''u'', CHR ''0'', CHR ''0'',
              digit_char (of_char c div 16), digit_char (of_char c mod 16)]
      else [c])"

definition quote :: "string \<Rightarrow> string" where
  "quote s = [CHR 0x22] @ concat (map escape_char s) @ [CHR 0x22]"

fun ref_stringify :: "json \<Rightarrow> string" where
  "ref_stringify JNull = ''null''"
| "ref_stringify (JBool b) = (if b then ''true'' else ''false'')"
| "ref_stringify (JNum t) = t"
| "ref_stringify (JStr s) = quote s"
| "ref_stringify (JArr xs) = ''['' @ join '','' (map ref_stringify xs) @ '']''"
| "ref_stringify (JObj kvs) =
     ''{'' @ join '','' (map (\<lambda>p. quote (fst p) @ '':'' @ ref_stringify (snd p)) kvs) @ ''}''"

text \<open>
  Modelled from the spec: the masking helpers \<open>unmaskStreamChunk\<close> and
  \<open>flushStreamBuffer\<close> of the masking module and \<open>unredactStreamChunk\<close> and
  \<open>flushRedactionBuffer\<close> of the redaction module, which the stream rewriter imports.
  The context maps placeholder tokens to original values. A step scans the buffer
  followed by the new content for complete tokens and substitutes them, and withholds
  the longest suffix that is a proper, non-empty prefix of a token. A flush resolves
  what the buffer holds. The spec defines the step on text; for a content value that
  is not a string the reference step takes the empty text.
\<close>

type_synonym placeholder_context = "(string \<times> string) list"

definition find_token :: "placeholder_context \<Rightarrow> string \<Rightarrow> (string \<times> string) option" where
  "find_token ctx text = find (\<lambda>(token, original). token \<noteq> [] \<and> startsWith text token) ctx"

fun unmask_from :: "placeholder_context \<Rightarrow> nat \<Rightarrow> string \<Rightarrow> string" where
  \<comment> \<open>the number counts the code units of a matched token still to be skipped\<close>
  "unmask_from ctx n [] = []"
| "unmask_from ctx n (c # cs) =
     (if 0 < n then unmask_from ctx (n - 1) cs
      else (case find_token ctx (c # cs) of
              Some (token, original) \<Rightarrow> original @ unmask_from ctx (length token - 1) cs
            | None \<Rightarrow> c # unmask_from ctx 0 cs))"

definition unmask :: "placeholder_context \<Rightarrow> string \<Rightarrow> string" where
  "unmask ctx text = unmask_from ctx 0 text"

definition partial_token :: "placeholder_context \<Rightarrow> string \<Rightarrow> bool" where
  "partial_token ctx s \<longleftrightarrow>
     s \<noteq> [] \<and> list_ex (\<lambda>(token, original). length s < length token \<and> startsWith token s) ctx"

fun withheld :: "placeholder_context \<Rightarrow> string \<Rightarrow> string" where
  "withheld ctx [] = []"
| "withheld ctx (c # cs) = (if partial_token ctx (c # cs) then c # cs else withheld ctx cs)"

definition overlap_free :: "placeholder_context \<Rightarrow> bool" where
  \<comment> \<open>no proper, non-empty suffix of a token begins a token\<close>
  "overlap_free ctx \<longleftrightarrow>
     list_all (\<lambda>(t, original).
        list_all (\<lambda>(t2, original2).
           list_all (\<lambda>k. \<not> startsWith t2 (drop k t)) [1..<length t]) ctx) ctx"

definition content_text :: "json \<Rightarrow> string" where
  "content_text v = (case v of JStr s \<Rightarrow> s | _ \<Rightarrow> [])"

definition ref_stream_chunk :: "string \<Rightarrow> json \<Rightarrow> placeholder_context \<Rightarrow> unit \<Rightarrow> string \<times> string" where
  "ref_stream_chunk buffer content ctx config =
     (let text = buffer @ content_text content;
          remainingBuffer = withheld ctx text
      in (unmask ctx (take (length text - length remainingBuffer) text), remainingBuffer))"

definition ref_flush_buffer :: "string \<Rightarrow> placeholder_context \<Rightarrow> unit \<Rightarrow> string" where
  "ref_flush_buffer buffer ctx config = unmask ctx buffer"

definition ref_runtime :: "(placeholder_context, unit, placeholder_context) runtime" where
  "ref_runtime =
     \<lparr>JSON_parse = ref_parse,
      JSON_stringify = ref_stringify,
      Date_now_id = 1700000000123,
      Date_now_created = 1700000000124,
      unmaskStreamChunk = ref_stream_chunk,
      flushStreamBuffer = ref_flush_buffer,
      unredactStreamChunk = (\<lambda>buffer content ctx. ref_stream_chunk buffer content ctx ()),
      flushRedactionBuffer = (\<lambda>buffer ctx. ref_flush_buffer buffer ctx ())\<rparr>"

section \<open>Reference definitions in the words of the specification\<close>

text \<open>Deduplication in first-seen order: an element is kept where it first occurs.\<close>

fun first_seen :: "'a list \<Rightarrow> 'a list" where
  "first_seen [] = []"
| "first_seen (x # xs) = x # first_seen (filter (\<lambda>y. y \<noteq> x) xs)"

text \<open>
  The order of the scoreless resolver: start ascending, then length descending, as a
  lexicographic key.
\<close>

definition key_simple :: "'a Interval_scheme \<Rightarrow> int \<times> int" where
  "key_simple e = (start e, - (end' e - start e))"

text \<open>
  The greedy scan: the first span is kept; a later span is kept if and only if its
  start is at or after the end of the span kept last.
\<close>

fun greedy_from :: "'a Interval_scheme \<Rightarrow> 'a Interval_scheme list \<Rightarrow> 'a Interval_scheme list" where
  "greedy_from lastKept [] = []"
| "greedy_from lastKept (x # xs) =
     (if start x \<ge> end' lastKept then x # greedy_from x xs else greedy_from lastKept xs)"

fun greedy_keep :: "'a Interval_scheme list \<Rightarrow> 'a Interval_scheme list" where
  "greedy_keep [] = []"
| "greedy_keep (x # xs) = x # greedy_from x xs"


text \<open>
  Properties of a resolved list. Two spans of the same type do not overlap; the list is
  ordered by the key of the conflict sort (start, end, score descending); and no span
  coincides with or lies inside a span that precedes it.
\<close>

definition same_type_disjoint :: "EntityWithScore \<Rightarrow> EntityWithScore \<Rightarrow> bool" where
  "same_type_disjoint a b \<longleftrightarrow> (entity_type a = entity_type b \<longrightarrow> \<not> overlaps a b)"

definition key_conflict :: "EntityWithScore \<Rightarrow> int \<times> int \<times> real" where
  "key_conflict e = (start e, end' e, - score e)"

definition no_conflict :: "EntityWithScore \<Rightarrow> EntityWithScore \<Rightarrow> bool" where
  "no_conflict kept entity \<longleftrightarrow>
     \<not> (start entity = start kept \<and> end' entity = end' kept) \<and> \<not> isContainedIn entity kept"

definition resolved :: "EntityWithScore list \<Rightarrow> bool" where
  "resolved R \<longleftrightarrow> sorted_wrt same_type_disjoint R \<and> sorted (map key_conflict R)
     \<and> sorted_wrt no_conflict R"

section \<open>Sorting with a comparator\<close>

lemma insert_by_insort_key:
  fixes f :: "'a \<Rightarrow> 'k::linorder"
  assumes "\<And>a b. cmp a b \<le> 0 \<longleftrightarrow> f a \<le> f b"
  shows "insert_by cmp x ys = insort_key f x ys"
  by (induction ys) (simp_all add: assms)

lemma sort_by_sort_key:
  fixes f :: "'a \<Rightarrow> 'k::linorder"
  assumes "\<And>a b. cmp a b \<le> 0 \<longleftrightarrow> f a \<le> f b"
  shows "sort_by cmp xs = sort_key f xs"
proof -
  have "insert_by cmp = insort_key f"
    using insert_by_insort_key [of cmp f, OF assms] by (intro ext)
  then show ?thesis by (simp add: sort_by_def sort_key_def)
qed

section \<open>The scoreless resolver\<close>

lemma cmp_simple_key: "cmp_simple a b \<le> 0 \<longleftrightarrow> key_simple a \<le> key_simple b"
  by (auto simp: cmp_simple_def key_simple_def less_eq_prod_def)

lemma fold_simple_step:
  "result \<noteq> [] \<Longrightarrow> fold simple_step xs result = result @ greedy_from (last result) xs"
  by (induction xs arbitrary: result) (simp_all add: simple_step_def Let_def)

lemma resolveConflictsSimple_greedy:
  "resolveConflictsSimple xs = greedy_keep (sort_key key_simple xs)"
proof (cases "length xs \<le> 1")
  case True
  then have "xs = [] \<or> (\<exists>x. xs = [x])" by (cases xs) auto
  then show ?thesis by (auto simp: resolveConflictsSimple_def)
next
  case False
  define s where "s = sort_key key_simple xs"
  have "length s = length xs" by (simp add: s_def)
  with False obtain y ys where s: "s = y # ys" by (cases s) auto
  have "sort_by cmp_simple xs = s"
    unfolding s_def by (rule sort_by_sort_key) (rule cmp_simple_key)
  with False s show ?thesis
    by (simp add: resolveConflictsSimple_def fold_simple_step s_def [symmetric])
qed

text \<open>
  C6. \<open>resolveConflictsSimple\<close> sorts its input by start ascending and, among equal
  starts, by length descending (the sorted list is a permutation of the input, ordered
  by that key), then scans greedily: the first span is kept and a later span is kept
  exactly when its start is at or after the end of the span kept last. A span that
  touches the end of the kept span is kept, a span that overlaps it is dropped:
  \<open>[{0,10},{5,15}]\<close> gives \<open>[{0,10}]\<close>, and \<open>{10,15}\<close> survives next to \<open>{0,10}\<close>.
\<close>

theorem resolveConflictsSimple_sorted_greedy:
  "resolveConflictsSimple xs = greedy_keep (sort_key key_simple xs)
   \<and> mset (sort_key key_simple xs) = mset xs
   \<and> sorted (map key_simple (sort_key key_simple xs))
   \<and> resolveConflictsSimple [\<lparr>start = 0, end' = 10\<rparr>, \<lparr>start = 5, end' = 15\<rparr>]
       = [\<lparr>start = 0, end' = 10\<rparr>]
   \<and> resolveConflictsSimple
         [\<lparr>start = 10, end' = 15\<rparr>, \<lparr>start = 0, end' = 3\<rparr>, \<lparr>start = 0, end' = 10\<rparr>]
       = [\<lparr>start = 0, end' = 10\<rparr>, \<lparr>start = 10, end' = 15\<rparr>]"
proof -
  have "resolveConflictsSimple [\<lparr>start = 0, end' = 10\<rparr>, \<lparr>start = 5, end' = 15\<rparr>]
          = [\<lparr>start = 0, end' = 10\<rparr>]"
    by (simp add: resolveConflictsSimple_def sort_by_def cmp_simple_def simple_step_def)
  moreover have "resolveConflictsSimple
         [\<lparr>start = 10, end' = 15\<rparr>, \<lparr>start = 0, end' = 3\<rparr>, \<lparr>start = 0, end' = 10\<rparr>]
       = [\<lparr>start = 0, end' = 10\<rparr>, \<lparr>start = 10, end' = 15\<rparr>]"
    by (simp add: resolveConflictsSimple_def sort_by_def cmp_simple_def simple_step_def)
  ultimately show ?thesis
    using resolveConflictsSimple_greedy [of xs] by simp
qed

section \<open>The scored resolver\<close>


lemmas rc_eval = resolveConflicts_def groupBy_def group_step_def Map_values_def mergeOverlapping_def
  removeConflicting_def sort_by_def cmp_conflict_def cmp_start_def conflict_step_def
  hasConflict_def isContainedIn_def overlaps_def merge_step_def merge_entities_def Let_def

subsection \<open>Grouping\<close>

lemma map_of_Map_set: "map_of (Map_set m k v) = (map_of m)(k \<mapsto> v)"
  by (induction m) (auto simp: fun_eq_iff)

lemma fst_Map_set: "map fst (Map_set m k v) = (if k \<in> fst ` set m then map fst m else map fst m @ [k])"
proof (induction m)
  case Nil
  then show ?case by simp
next
  case (Cons p m)
  obtain k' v' where p: "p = (k', v')" by (cases p)
  show ?case
  proof (cases "k' = k")
    case True
    then show ?thesis by (simp add: p)
  next
    case False
    then show ?thesis using Cons.IH by (simp add: p)
  qed
qed

lemma distinct_Map_set: "distinct (map fst m) \<Longrightarrow> distinct (map fst (Map_set m k v))"
  by (simp add: fst_Map_set)

lemma mset_Map_set:
  "mset (concat (map snd (Map_set m k ((case map_of m k of Some g \<Rightarrow> g | None \<Rightarrow> []) @ [x]))))
     = mset (concat (map snd m)) + {#x#}"
  by (induction m) auto

lemma fold_group_step:
  "distinct (map fst g0) \<Longrightarrow>
   distinct (map fst (fold (group_step f) xs g0))
   \<and> mset (concat (map snd (fold (group_step f) xs g0))) = mset (concat (map snd g0)) + mset xs
   \<and> (\<forall>k. map_of (fold (group_step f) xs g0) k =
        (if filter (\<lambda>x. f x = k) xs = [] then map_of g0 k
         else Some ((case map_of g0 k of Some g \<Rightarrow> g | None \<Rightarrow> []) @ filter (\<lambda>x. f x = k) xs)))"
proof (induction xs arbitrary: g0)
  case Nil
  then show ?case by simp
next
  case (Cons x xs)
  let ?g1 = "group_step f x g0"
  have d: "distinct (map fst ?g1)" using Cons.prems by (simp add: group_step_def Let_def distinct_Map_set)
  have m: "mset (concat (map snd ?g1)) = mset (concat (map snd g0)) + {#x#}"
    by (simp add: group_step_def Let_def mset_Map_set)
  have l: "map_of ?g1 = (map_of g0)(f x \<mapsto> (case map_of g0 (f x) of Some g \<Rightarrow> g | None \<Rightarrow> []) @ [x])"
    by (simp add: group_step_def Let_def map_of_Map_set)
  from Cons.IH [OF d] show ?case
    by (auto simp: m l)
qed

lemma groupBy_props:
  "distinct (map fst (groupBy xs f))"
  "mset (concat (Map_values (groupBy xs f))) = mset xs"
  "(k, g) \<in> set (groupBy xs f) \<Longrightarrow> g = filter (\<lambda>x. f x = k) xs \<and> g \<noteq> []"
proof -
  note F = fold_group_step [of "[]" f xs, simplified, folded groupBy_def]
  show d: "distinct (map fst (groupBy xs f))" using F by simp
  show "mset (concat (Map_values (groupBy xs f))) = mset xs" using F by (simp add: Map_values_def)
  assume "(k, g) \<in> set (groupBy xs f)"
  with d have "map_of (groupBy xs f) k = Some g" by simp
  with F show "g = filter (\<lambda>x. f x = k) xs \<and> g \<noteq> []" by (auto split: if_splits)
qed


subsection \<open>Merging within a type\<close>

lemma cmp_start_key: "cmp_start a b \<le> 0 \<longleftrightarrow> start a \<le> start b"
  by (simp add: cmp_start_def)

lemma sort_by_cmp_start: "sort_by cmp_start xs = sort_key start xs"
  by (rule sort_by_sort_key) (rule cmp_start_key)

lemma overlaps_sym: "overlaps a b = overlaps b a"
  by (auto simp: overlaps_def)

lemma fold_merge_step_inv:
  fixes res :: "EntityWithScore list"
  assumes "res \<noteq> []"
    and "sorted_wrt (\<lambda>a b. end' a \<le> start b) res"
    and "\<forall>e\<in>set res. start e < end' e \<and> entity_type e = t"
    and "\<forall>r\<in>set rs. start (last res) \<le> start r \<and> start r < end' r \<and> entity_type r = t"
    and "sorted (map start rs)"
  shows "sorted_wrt (\<lambda>a b. end' a \<le> start b) (fold (merge_step merge_entities) rs res)
         \<and> (\<forall>e\<in>set (fold (merge_step merge_entities) rs res). start e < end' e \<and> entity_type e = t)"
  using assms
proof (induction rs arbitrary: res)
  case Nil
  then show ?case by simp
next
  case (Cons c rs)
  define l where "l = last res"
  define bl where "bl = butlast res"
  have res: "res = bl @ [l]" using Cons.prems(1) by (simp add: l_def bl_def)
  have lin: "l \<in> set res" using Cons.prems(1) by (simp add: l_def)
  have l: "start l < end' l" "entity_type l = t" "start l \<le> start c" "start c < end' c"
    "entity_type c = t"
    using Cons.prems(3,4) lin by (simp_all add: l_def [symmetric])
  have bl: "sorted_wrt (\<lambda>a b. end' a \<le> start b) bl" "\<forall>a\<in>set bl. end' a \<le> start l"
    "\<forall>e\<in>set bl. start e < end' e \<and> entity_type e = t"
  proof -
    have "sorted_wrt (\<lambda>a b. end' a \<le> start b) (bl @ [l])" using Cons.prems(2) res by simp
    then show "sorted_wrt (\<lambda>a b. end' a \<le> start b) bl" "\<forall>a\<in>set bl. end' a \<le> start l"
      by (simp_all add: sorted_wrt_append)
    have "set bl \<subseteq> set res" by (subst res) auto
    then show "\<forall>e\<in>set bl. start e < end' e \<and> entity_type e = t"
      using Cons.prems(3) by blast
  qed
  have rs: "\<forall>r\<in>set rs. start c \<le> start r \<and> start r < end' r \<and> entity_type r = t"
    "sorted (map start rs)"
    using Cons.prems(4,5) by auto
  show ?case
  proof (cases "overlaps c l")
    case True
    define l' where "l' = merge_entities l c"
    have l': "start l' = start l" "end' l' = max (end' l) (end' c)" "entity_type l' = t"
      using l by (simp_all add: l'_def merge_entities_def)
    have step: "merge_step merge_entities c res = bl @ [l']"
      using True by (simp add: merge_step_def l_def [symmetric] bl_def [symmetric] l'_def)
    have "sorted_wrt (\<lambda>a b. end' a \<le> start b) (fold (merge_step merge_entities) rs (bl @ [l']))
         \<and> (\<forall>e\<in>set (fold (merge_step merge_entities) rs (bl @ [l'])). start e < end' e \<and> entity_type e = t)"
    proof (rule Cons.IH)
      show "bl @ [l'] \<noteq> []" by simp
      show "sorted_wrt (\<lambda>a b. end' a \<le> start b) (bl @ [l'])"
        using bl l' by (simp add: sorted_wrt_append)
      show "\<forall>e\<in>set (bl @ [l']). start e < end' e \<and> entity_type e = t"
        using bl l l' by auto
      show "\<forall>r\<in>set rs. start (last (bl @ [l'])) \<le> start r \<and> start r < end' r \<and> entity_type r = t"
        using rs l l' by auto
      show "sorted (map start rs)" by (rule rs)
    qed
    then show ?thesis by (simp add: step)
  next
    case False
    then have le: "end' l \<le> start c" using l by (auto simp: overlaps_def)
    have step: "merge_step merge_entities c res = res @ [c]"
      using False by (simp add: merge_step_def l_def [symmetric])
    have "sorted_wrt (\<lambda>a b. end' a \<le> start b) (fold (merge_step merge_entities) rs (res @ [c]))
         \<and> (\<forall>e\<in>set (fold (merge_step merge_entities) rs (res @ [c])). start e < end' e \<and> entity_type e = t)"
    proof (rule Cons.IH)
      show "res @ [c] \<noteq> []" by simp
      show "sorted_wrt (\<lambda>a b. end' a \<le> start b) (res @ [c])"
      proof -
        have "sorted_wrt (\<lambda>a b. end' a \<le> start b) ((bl @ [l]) @ [c])"
          unfolding sorted_wrt_append [of _ "bl @ [l]"] using bl l le by (auto simp: sorted_wrt_append)
        then show ?thesis using res by simp
      qed
      show "\<forall>e\<in>set (res @ [c]). start e < end' e \<and> entity_type e = t"
        using Cons.prems(3) l by auto
      show "\<forall>r\<in>set rs. start (last (res @ [c])) \<le> start r \<and> start r < end' r \<and> entity_type r = t"
        using rs by auto
      show "sorted (map start rs)" by (rule rs)
    qed
    then show ?thesis by (simp add: step)
  qed
qed

lemma mergeOverlapping_chain:
  fixes g :: "EntityWithScore list"
  assumes "\<forall>e\<in>set g. start e < end' e \<and> entity_type e = t"
  shows "sorted_wrt (\<lambda>a b. end' a \<le> start b) (mergeOverlapping g merge_entities)
         \<and> (\<forall>e\<in>set (mergeOverlapping g merge_entities). start e < end' e \<and> entity_type e = t)"
proof (cases "length g \<le> 1")
  case True
  then have "g = [] \<or> (\<exists>x. g = [x])" by (cases g) auto
  then show ?thesis using assms by (auto simp: mergeOverlapping_def)
next
  case False
  define s where "s = sort_key start g"
  have len: "length s = length g" and set: "set s = set g" and srt: "sorted (map start s)"
    by (simp_all add: s_def)
  from False len obtain y ys where s: "s = y # ys" by (cases s) auto
  have mo: "mergeOverlapping g merge_entities = fold (merge_step merge_entities) ys [y]"
    using False s by (simp add: mergeOverlapping_def sort_by_cmp_start s_def [symmetric])
  have "sorted_wrt (\<lambda>a b. end' a \<le> start b) (fold (merge_step merge_entities) ys [y])
         \<and> (\<forall>e\<in>set (fold (merge_step merge_entities) ys [y]). start e < end' e \<and> entity_type e = t)"
  proof (rule fold_merge_step_inv)
    show "[y] \<noteq> []" by simp
    show "sorted_wrt (\<lambda>a b. end' a \<le> start b) [y]" by simp
    show "\<forall>e\<in>set [y]. start e < end' e \<and> entity_type e = t"
      using assms set s by auto
    show "\<forall>r\<in>set ys. start (last [y]) \<le> start r \<and> start r < end' r \<and> entity_type r = t"
      using assms set s srt by auto
    show "sorted (map start ys)" using srt s by simp
  qed
  then show ?thesis by (simp add: mo)
qed


lemma cmp_conflict_key: "cmp_conflict a b \<le> 0 \<longleftrightarrow> key_conflict a \<le> key_conflict b"
  by (auto simp: cmp_conflict_def key_conflict_def less_eq_prod_def)

lemma sort_by_cmp_conflict: "sort_by cmp_conflict xs = sort_key key_conflict xs"
  by (rule sort_by_sort_key) (rule cmp_conflict_key)

lemma fold_append_map: "fold (\<lambda>group acc. acc @ h group) gs acc0 = acc0 @ concat (map h gs)"
  by (induction gs arbitrary: acc0) simp_all

lemma chain_disjoint:
  "sorted_wrt (\<lambda>a b. end' a \<le> start b) xs \<Longrightarrow> sorted_wrt same_type_disjoint xs"
  by (erule sorted_wrt_mono_rel [rotated]) (auto simp: same_type_disjoint_def overlaps_def)

lemma concat_merge_disjoint:
  assumes "distinct (map fst kgs)"
    and "\<forall>(k, g)\<in>set kgs. \<forall>e\<in>set g. start e < end' e \<and> entity_type e = k"
  shows "sorted_wrt same_type_disjoint
           (concat (map (\<lambda>g. mergeOverlapping g merge_entities) (map snd kgs)))
         \<and> (\<forall>e\<in>set (concat (map (\<lambda>g. mergeOverlapping g merge_entities) (map snd kgs))).
               start e < end' e \<and> entity_type e \<in> fst ` set kgs)"
  using assms
proof (induction kgs)
  case Nil
  then show ?case by simp
next
  case (Cons p kgs)
  obtain k g where p: "p = (k, g)" by (cases p)
  have g: "\<forall>e\<in>set g. start e < end' e \<and> entity_type e = k"
    using Cons.prems(2) p by auto
  note mo = mergeOverlapping_chain [OF g]
  have ih: "sorted_wrt same_type_disjoint
           (concat (map (\<lambda>g. mergeOverlapping g merge_entities) (map snd kgs)))
         \<and> (\<forall>e\<in>set (concat (map (\<lambda>g. mergeOverlapping g merge_entities) (map snd kgs))).
               start e < end' e \<and> entity_type e \<in> fst ` set kgs)"
    using Cons.prems by (intro Cons.IH) auto
  have k: "k \<notin> fst ` set kgs" using Cons.prems(1) p by auto
  have cross: "\<forall>x\<in>set (mergeOverlapping g merge_entities).
        \<forall>y\<in>set (concat (map (\<lambda>g. mergeOverlapping g merge_entities) (map snd kgs))).
          same_type_disjoint x y"
    using mo ih k by (fastforce simp: same_type_disjoint_def)
  show ?case
    using mo ih cross chain_disjoint [of "mergeOverlapping g merge_entities"]
    by (simp add: p sorted_wrt_append) blast
qed

lemma sorted_wrt_insort_key_sym:
  assumes "\<And>a b. P a b \<Longrightarrow> P b a"
  shows "sorted_wrt P xs \<Longrightarrow> \<forall>y\<in>set xs. P x y \<Longrightarrow> sorted_wrt P (insort_key f x xs)"
  by (induction xs) (auto simp: set_insort_key assms)

lemma sorted_wrt_sort_key_sym:
  assumes "\<And>a b. P a b \<Longrightarrow> P b a"
  shows "sorted_wrt P xs \<Longrightarrow> sorted_wrt P (sort_key f xs)"
proof (induction xs)
  case Nil
  then show ?case by simp
next
  case (Cons x xs)
  then show ?case
    by (simp add: sort_key_def [symmetric] sorted_wrt_insort_key_sym [OF assms])
qed

lemma fold_conflict_step_sorted_wrt:
  "sorted_wrt Q (acc @ xs) \<Longrightarrow> sorted_wrt Q (fold conflict_step xs acc)"
proof (induction xs arbitrary: acc)
  case Nil
  then show ?case by simp
next
  case (Cons x xs)
  show ?case
  proof (cases "hasConflict x acc")
    case True
    have "sorted_wrt Q (acc @ xs)" using Cons.prems by (auto simp: sorted_wrt_append)
    then show ?thesis using True Cons.IH [of acc] by (simp add: conflict_step_def)
  next
    case False
    then show ?thesis using Cons.prems Cons.IH [of "acc @ [x]"] by (simp add: conflict_step_def)
  qed
qed

lemma hasConflict_iff: "hasConflict e result \<longleftrightarrow> (\<exists>k\<in>set result. \<not> no_conflict k e)"
  by (auto simp: hasConflict_def no_conflict_def list_ex_iff)

lemma fold_conflict_step_no_conflict:
  "sorted_wrt no_conflict acc \<Longrightarrow> sorted_wrt no_conflict (fold conflict_step xs acc)"
proof (induction xs arbitrary: acc)
  case Nil
  then show ?case by simp
next
  case (Cons x xs)
  then show ?case
    by (cases "hasConflict x acc") (auto simp: conflict_step_def hasConflict_iff sorted_wrt_append)
qed

lemma fold_conflict_step_fixed:
  "sorted_wrt no_conflict (acc @ ys) \<Longrightarrow> fold conflict_step ys acc = acc @ ys"
proof (induction ys arbitrary: acc)
  case Nil
  then show ?case by simp
next
  case (Cons y ys)
  have "\<not> hasConflict y acc" using Cons.prems by (auto simp: hasConflict_iff sorted_wrt_append)
  then show ?case using Cons.prems Cons.IH [of "acc @ [y]"] by (simp add: conflict_step_def)
qed


lemma removeConflicting_sort_key:
  "removeConflicting A =
     (if length A \<le> 1 then A else fold conflict_step (sort_key key_conflict A) [])"
  by (simp add: removeConflicting_def sort_by_cmp_conflict)

lemma resolveConflicts_concat:
  "resolveConflicts xs =
     (if length xs \<le> 1 then xs
      else removeConflicting
             (concat (map (\<lambda>g. mergeOverlapping g merge_entities)
                          (map snd (groupBy xs entity_type)))))"
  by (simp add: resolveConflicts_def fold_append_map Map_values_def)

lemma short_list: "length xs \<le> 1 \<Longrightarrow> xs = [] \<or> (\<exists>x. xs = [x])"
  by (cases xs) auto

lemma same_type_disjoint_sym: "same_type_disjoint a b \<Longrightarrow> same_type_disjoint b a"
  by (auto simp: same_type_disjoint_def overlaps_def)

lemma removeConflicting_resolved:
  assumes "sorted_wrt same_type_disjoint A"
  shows "resolved (removeConflicting A)"
proof (cases "length A \<le> 1")
  case True
  then show ?thesis
    using short_list [OF True] by (auto simp: removeConflicting_sort_key resolved_def)
next
  case False
  define S where "S = sort_key key_conflict A"
  have 1: "sorted_wrt same_type_disjoint S"
    unfolding S_def using same_type_disjoint_sym assms by (rule sorted_wrt_sort_key_sym)
  have 2: "sorted_wrt (\<lambda>a b. key_conflict a \<le> key_conflict b) S"
    using sorted_sort_key [of key_conflict A] by (simp only: S_def sorted_map)
  have "sorted_wrt same_type_disjoint (fold conflict_step S [])"
    using 1 by (intro fold_conflict_step_sorted_wrt) simp
  moreover have "sorted (map key_conflict (fold conflict_step S []))"
    unfolding sorted_map using 2 by (intro fold_conflict_step_sorted_wrt) simp
  moreover have "sorted_wrt no_conflict (fold conflict_step S [])"
    by (intro fold_conflict_step_no_conflict) simp
  ultimately show ?thesis
    using False by (simp add: removeConflicting_sort_key resolved_def S_def)
qed

lemma resolveConflicts_resolved:
  assumes "\<forall>e\<in>set xs. start e < end' e"
  shows "resolved (resolveConflicts xs)"
proof (cases "length xs \<le> 1")
  case True
  then show ?thesis
    using short_list [OF True] by (auto simp: resolveConflicts_concat resolved_def)
next
  case False
  have "\<forall>(k, g)\<in>set (groupBy xs entity_type). \<forall>e\<in>set g. start e < end' e \<and> entity_type e = k"
    using groupBy_props(3) [of _ _ xs entity_type] assms by fastforce
  with groupBy_props(1) [of xs entity_type]
  have "sorted_wrt same_type_disjoint
          (concat (map (\<lambda>g. mergeOverlapping g merge_entities)
                       (map snd (groupBy xs entity_type))))"
    using concat_merge_disjoint by blast
  then show ?thesis
    using False by (simp add: resolveConflicts_concat removeConflicting_resolved)
qed

lemma fold_merge_step_id:
  "sorted_wrt (\<lambda>a b. \<not> overlaps b a) (res @ rs) \<Longrightarrow> res \<noteq> [] \<Longrightarrow>
     fold (merge_step m) rs res = res @ rs"
proof (induction rs arbitrary: res)
  case Nil
  then show ?case by simp
next
  case (Cons c rs)
  have "last res \<in> set res" using Cons.prems(2) by simp
  then have "\<not> overlaps c (last res)" using Cons.prems(1) by (auto simp: sorted_wrt_append)
  then have "merge_step m c res = res @ [c]" by (simp add: merge_step_def)
  then show ?case using Cons.prems Cons.IH [of "res @ [c]"] by simp
qed

lemma mergeOverlapping_id:
  assumes "sorted (map start g)" and "sorted_wrt (\<lambda>a b. \<not> overlaps b a) g"
  shows "mergeOverlapping g m = g"
proof (cases g)
  case Nil
  then show ?thesis by (simp add: mergeOverlapping_def)
next
  case (Cons y ys)
  have "sort_by cmp_start g = g"
    using assms(1) by (simp add: sort_by_cmp_start sort_key_id_if_sorted)
  moreover have "fold (merge_step m) ys [y] = [y] @ ys"
    using assms(2) Cons by (intro fold_merge_step_id) simp_all
  ultimately show ?thesis using Cons by (simp add: mergeOverlapping_def)
qed

lemma sorted_wrt_neq_inj_on:
  "sorted_wrt (\<lambda>a b. f a \<noteq> f b) xs \<Longrightarrow> inj_on f (set xs)"
  by (induction xs) auto

lemma resolved_fixed_point:
  assumes "resolved R"
  shows "resolveConflicts R = R"
proof (cases "length R \<le> 1")
  case True
  then show ?thesis by (simp add: resolveConflicts_def)
next
  case False
  from assms have P: "sorted_wrt same_type_disjoint R"
    and K: "sorted (map key_conflict R)" and N: "sorted_wrt no_conflict R"
    by (simp_all add: resolved_def)
  have "sorted_wrt (\<lambda>a b. key_conflict a \<le> key_conflict b) R"
    using K by (simp add: sorted_map)
  then have "sorted_wrt (\<lambda>a b. start a \<le> start b) R"
    by (rule sorted_wrt_mono_rel [rotated]) (auto simp: key_conflict_def less_eq_prod_def)
  then have S: "sorted (map start R)" by (simp add: sorted_map)
  define G where "G = groupBy R entity_type"
  have same: "mergeOverlapping g merge_entities = g" if "g \<in> set (map snd G)" for g
  proof -
    from that obtain k where "(k, g) \<in> set G" by auto
    then have g: "g = filter (\<lambda>x. entity_type x = k) R"
      using groupBy_props(3) [of k g R entity_type] by (simp add: G_def)
    have "sorted (map start g)" unfolding g using S by (rule sorted_filter)
    moreover have "sorted_wrt same_type_disjoint g"
      unfolding g using P by (rule sorted_wrt_filter)
    then have "sorted_wrt (\<lambda>a b. \<not> overlaps b a) g"
      by (rule sorted_wrt_mono_rel [rotated])
         (auto simp: g same_type_disjoint_def overlaps_def)
    ultimately show ?thesis by (rule mergeOverlapping_id)
  qed
  then have eq: "map (\<lambda>g. mergeOverlapping g merge_entities) (map snd G) = map snd G"
    by (intro map_idI) simp
  have "resolveConflicts R =
          removeConflicting (concat (map (\<lambda>g. mergeOverlapping g merge_entities) (map snd G)))"
    using False by (simp only: resolveConflicts_concat G_def if_False)
  then have rc: "resolveConflicts R = removeConflicting (concat (map snd G))"
    by (simp only: eq)
  have ms: "mset (concat (map snd G)) = mset R"
    using groupBy_props(2) [of R entity_type] by (simp add: G_def Map_values_def)
  then have len: "length (concat (map snd G)) = length R" by (rule mset_eq_length)
  have "sorted_wrt (\<lambda>a b. key_conflict a \<noteq> key_conflict b) R"
    using N by (rule sorted_wrt_mono_rel [rotated]) (auto simp: no_conflict_def key_conflict_def)
  then have "inj_on key_conflict (set R)" by (rule sorted_wrt_neq_inj_on)
  moreover have "set (concat (map snd G)) = set R" using ms by (rule mset_eq_setD)
  ultimately have "inj_on key_conflict (set (concat (map snd G)))" by simp
  with ms have "sort_key key_conflict (concat (map snd G)) = R"
    using K by (rule sort_key_inj_key_eq)
  then have "removeConflicting (concat (map snd G)) = fold conflict_step R []"
    using False len by (simp add: removeConflicting_sort_key)
  also have "\<dots> = [] @ R" using N by (intro fold_conflict_step_fixed) simp
  finally show ?thesis using rc by simp
qed


text \<open>
  C2, as stated, fails: two spans of different types that overlap partly are both kept,
  since the second phase only removes a span that coincides with or lies inside a kept
  one.
\<close>

theorem resolveConflicts_cross_type_overlap:
  "resolveConflicts
     [\<lparr>start = 0, end' = 5, score = 0.9, entity_type = ''PERSON''\<rparr>,
      \<lparr>start = 3, end' = 8, score = 0.95, entity_type = ''LOCATION''\<rparr>]
   = [\<lparr>start = 0, end' = 5, score = 0.9, entity_type = ''PERSON''\<rparr>,
      \<lparr>start = 3, end' = 8, score = 0.95, entity_type = ''LOCATION''\<rparr>]
   \<and> overlaps \<lparr>start = 0, end' = 5, score = 0.9, entity_type = ''PERSON''\<rparr>
               \<lparr>start = 3, end' = 8, score = 0.95, entity_type = ''LOCATION''\<rparr>"
  by (simp add: rc_eval)

text \<open>
  C2, amended. For every list of scored entity spans, each with \<open>start < end\<close>, two
  distinct spans of the output that have the same entity type do not overlap.
\<close>

theorem resolveConflicts_same_type_disjoint:
  assumes "\<forall>e\<in>set xs. start e < end' e"
    and "i < j" and "j < length (resolveConflicts xs)"
    and "entity_type (resolveConflicts xs ! i) = entity_type (resolveConflicts xs ! j)"
  shows "\<not> overlaps (resolveConflicts xs ! i) (resolveConflicts xs ! j)"
proof -
  have "sorted_wrt same_type_disjoint (resolveConflicts xs)"
    using resolveConflicts_resolved [OF assms(1)] by (simp add: resolved_def)
  then have "same_type_disjoint (resolveConflicts xs ! i) (resolveConflicts xs ! j)"
    using assms(2,3) by (simp add: sorted_wrt_iff_nth_less)
  then show ?thesis using assms(4) by (simp add: same_type_disjoint_def)
qed

theorem resolveConflicts_same_type_disjoint_witness:
  "resolveConflicts
        [\<lparr>start = 0, end' = 5, score = 0.9, entity_type = ''PERSON''\<rparr>,
         \<lparr>start = 10, end' = 12, score = 0.8, entity_type = ''PERSON''\<rparr>,
         \<lparr>start = 3, end' = 8, score = 0.95, entity_type = ''PERSON''\<rparr>]
      = [\<lparr>start = 0, end' = 8, score = 0.95, entity_type = ''PERSON''\<rparr>,
         \<lparr>start = 10, end' = 12, score = 0.8, entity_type = ''PERSON''\<rparr>]
   \<and> \<not> overlaps \<lparr>start = 0, end' = 8, score = 0.95, entity_type = ''PERSON''\<rparr>
                 \<lparr>start = 10, end' = 12, score = 0.8, entity_type = ''PERSON''\<rparr>"
proof -
  let ?xs = "[\<lparr>start = 0, end' = 5, score = 0.9, entity_type = ''PERSON''\<rparr>,
              \<lparr>start = 10, end' = 12, score = 0.8, entity_type = ''PERSON''\<rparr>,
              \<lparr>start = 3, end' = 8, score = 0.95, entity_type = ''PERSON''\<rparr>]"
  let ?a = "\<lparr>start = 0, end' = 8, score = 0.95, entity_type = ''PERSON''\<rparr>"
  let ?b = "\<lparr>start = 10, end' = 12, score = 0.8, entity_type = ''PERSON''\<rparr>"
  have wf: "\<forall>e\<in>set ?xs. start e < end' e" by simp
  have out: "resolveConflicts ?xs = [?a, ?b]" by (simp add: rc_eval)
  have "\<not> overlaps (resolveConflicts ?xs ! 0) (resolveConflicts ?xs ! 1)"
    by (rule resolveConflicts_same_type_disjoint [OF wf]) (simp_all only: out, simp_all)
  then have "\<not> overlaps ?a ?b" unfolding out by simp
  with out show ?thesis by blast
qed

text \<open>
  C3 on the input \<open>[{0,5,PERSON},{0,8,LOCATION}]\<close>: both spans are kept, and the first
  lies inside the second. The conflict sort puts the shorter of two spans with the same
  start first, and a span is only compared with the spans kept before it.
\<close>

theorem resolveConflicts_keeps_contained_same_start:
  "resolveConflicts
     [\<lparr>start = 0, end' = 5, score = 0.9, entity_type = ''PERSON''\<rparr>,
      \<lparr>start = 0, end' = 8, score = 0.9, entity_type = ''LOCATION''\<rparr>]
   = [\<lparr>start = 0, end' = 5, score = 0.9, entity_type = ''PERSON''\<rparr>,
      \<lparr>start = 0, end' = 8, score = 0.9, entity_type = ''LOCATION''\<rparr>]
   \<and> isContainedIn \<lparr>start = 0, end' = 5, score = 0.9, entity_type = ''PERSON''\<rparr>
                    \<lparr>start = 0, end' = 8, score = 0.9, entity_type = ''LOCATION''\<rparr>"
  by (simp add: rc_eval)

text \<open>
  C7. For every list of scored entity spans (each with \<open>start < end\<close>, the invariant
  of an entity span), resolving the resolved list returns it unchanged: the same list,
  hence the same set of spans.
\<close>

theorem resolveConflicts_idempotent:
  assumes "\<forall>e\<in>set x. start e < end' e"
  shows "resolveConflicts (resolveConflicts x) = resolveConflicts x
         \<and> set (resolveConflicts (resolveConflicts x)) = set (resolveConflicts x)"
  using resolved_fixed_point [OF resolveConflicts_resolved [OF assms]] by simp

theorem resolveConflicts_idempotent_witness:
  "resolveConflicts (resolveConflicts
        [\<lparr>start = 0, end' = 5, score = 0.9, entity_type = ''PERSON''\<rparr>,
         \<lparr>start = 3, end' = 8, score = 0.95, entity_type = ''PERSON''\<rparr>,
         \<lparr>start = 6, end' = 12, score = 0.7, entity_type = ''LOCATION''\<rparr>,
         \<lparr>start = 1, end' = 4, score = 0.99, entity_type = ''EMAIL_ADDRESS''\<rparr>])
      = resolveConflicts
        [\<lparr>start = 0, end' = 5, score = 0.9, entity_type = ''PERSON''\<rparr>,
         \<lparr>start = 3, end' = 8, score = 0.95, entity_type = ''PERSON''\<rparr>,
         \<lparr>start = 6, end' = 12, score = 0.7, entity_type = ''LOCATION''\<rparr>,
         \<lparr>start = 1, end' = 4, score = 0.99, entity_type = ''EMAIL_ADDRESS''\<rparr>]
   \<and> resolveConflicts
        [\<lparr>start = 0, end' = 5, score = 0.9, entity_type = ''PERSON''\<rparr>,
         \<lparr>start = 3, end' = 8, score = 0.95, entity_type = ''PERSON''\<rparr>,
         \<lparr>start = 6, end' = 12, score = 0.7, entity_type = ''LOCATION''\<rparr>,
         \<lparr>start = 1, end' = 4, score = 0.99, entity_type = ''EMAIL_ADDRESS''\<rparr>]
      = [\<lparr>start = 0, end' = 8, score = 0.95, entity_type = ''PERSON''\<rparr>,
         \<lparr>start = 6, end' = 12, score = 0.7, entity_type = ''LOCATION''\<rparr>]"
proof -
  let ?xs = "[\<lparr>start = 0, end' = 5, score = 0.9, entity_type = ''PERSON''\<rparr>,
              \<lparr>start = 3, end' = 8, score = 0.95, entity_type = ''PERSON''\<rparr>,
              \<lparr>start = 6, end' = 12, score = 0.7, entity_type = ''LOCATION''\<rparr>,
              \<lparr>start = 1, end' = 4, score = 0.99, entity_type = ''EMAIL_ADDRESS''\<rparr>]"
  have wf: "\<forall>e\<in>set ?xs. start e < end' e" by simp
  have out: "resolveConflicts ?xs
      = [\<lparr>start = 0, end' = 8, score = 0.95, entity_type = ''PERSON''\<rparr>,
         \<lparr>start = 6, end' = 12, score = 0.7, entity_type = ''LOCATION''\<rparr>]"
    by (simp add: rc_eval)
  have "resolveConflicts (resolveConflicts ?xs) = resolveConflicts ?xs"
    using resolveConflicts_idempotent [OF wf] by (rule conjunct1)
  with out show ?thesis by blast
qed

text \<open>
  The invariant \<open>start < end\<close> is needed: with an empty span of the same type at the
  start of another span, the first run merges nothing and the second run merges the
  two spans that the empty one kept apart.
\<close>

lemma resolveConflicts_empty_span_not_fixed:
  "resolveConflicts
     [\<lparr>start = 0, end' = 10, score = 0.9, entity_type = ''PERSON''\<rparr>,
      \<lparr>start = 0, end' = 0, score = 0.9, entity_type = ''PERSON''\<rparr>,
      \<lparr>start = 5, end' = 20, score = 0.9, entity_type = ''PERSON''\<rparr>]
   = [\<lparr>start = 0, end' = 0, score = 0.9, entity_type = ''PERSON''\<rparr>,
      \<lparr>start = 0, end' = 10, score = 0.9, entity_type = ''PERSON''\<rparr>,
      \<lparr>start = 5, end' = 20, score = 0.9, entity_type = ''PERSON''\<rparr>]
   \<and> resolveConflicts
     [\<lparr>start = 0, end' = 0, score = 0.9, entity_type = ''PERSON''\<rparr>,
      \<lparr>start = 0, end' = 10, score = 0.9, entity_type = ''PERSON''\<rparr>,
      \<lparr>start = 5, end' = 20, score = 0.9, entity_type = ''PERSON''\<rparr>]
   = [\<lparr>start = 0, end' = 0, score = 0.9, entity_type = ''PERSON''\<rparr>,
      \<lparr>start = 0, end' = 20, score = 0.9, entity_type = ''PERSON''\<rparr>]"
  by (simp add: rc_eval)

section \<open>The routing decision\<close>

lemma fold_Set_add:
  "fold Set_add xs acc = acc @ first_seen (filter (\<lambda>y. y \<notin> set acc) xs)"
proof (induction xs arbitrary: acc)
  case Nil
  then show ?case by simp
next
  case (Cons x xs)
  show ?case
  proof (cases "x \<in> set acc")
    case True
    then show ?thesis using Cons.IH [of acc] by (simp add: Set_add_def)
  next
    case False
    have "filter (\<lambda>y. y \<notin> set (acc @ [x])) xs
            = filter (\<lambda>y. y \<noteq> x) (filter (\<lambda>y. y \<notin> set acc) xs)"
      by (auto intro: filter_cong)
    then show ?thesis using False Cons.IH [of "acc @ [x]"] by (simp add: Set_add_def)
  qed
qed

lemma Set_spread_first_seen: "Set_spread xs = first_seen xs"
  by (simp add: Set_spread_def fold_Set_add)

text \<open>
  C4. The routing decision follows a fixed precedence. (1) When the secrets result
  reports a detection and the secrets action is \<open>route_local\<close>, the provider is
  \<open>local\<close> and the reason lists the types of the matches in their order. (2) Otherwise,
  when the PII result reports PII, the provider is \<open>on_pii_detected\<close> and the reason
  lists the entity types of the new entities, deduplicated in first-seen order.
  (3) Otherwise the provider is \<open>default\<close> and the reason is \<open>No PII detected\<close>.
\<close>

theorem decideRoute_precedence:
  "(detected s \<and> a = Some route_local \<longrightarrow>
      decideRoute p r (Some s) a =
        \<lparr>provider = local,
         reason = ''Secrets detected (route_local): '' @ join '', '' (map type (matches s))\<rparr>)
   \<and> (\<not> (secretsDetected so \<and> a = Some route_local) \<and> hasPII p \<longrightarrow>
      decideRoute p r so a =
        \<lparr>provider = on_pii_detected r,
         reason = ''PII detected: ''
                  @ join '', '' (first_seen (map entity_type (newEntities p)))\<rparr>)
   \<and> (\<not> (secretsDetected so \<and> a = Some route_local) \<and> \<not> hasPII p \<longrightarrow>
      decideRoute p r so a = \<lparr>provider = default r, reason = ''No PII detected''\<rparr>)"
  by (simp add: decideRoute_def secretsDetected_def Set_spread_first_seen)

theorem decideRoute_precedence_witness:
  "decideRoute
     \<lparr>hasPII = True,
      newEntities = [\<lparr>start = 0, end' = 10, score = 0.9, entity_type = ''PERSON''\<rparr>],
      entitiesByMessage = [], language = ''en'', languageFallback = False, scanTimeMs = 50\<rparr>
     \<lparr>default = upstream, on_pii_detected = upstream\<rparr>
     (Some \<lparr>detected = True,
            matches = [\<lparr>type = ''API_KEY_AWS'', count = 1\<rparr>, \<lparr>type = ''JWT_TOKEN'', count = 2\<rparr>],
            redactions = []\<rparr>)
     (Some route_local)
   = \<lparr>provider = local, reason = ''Secrets detected (route_local): API_KEY_AWS, JWT_TOKEN''\<rparr>
   \<and> decideRoute
     \<lparr>hasPII = True,
      newEntities = [\<lparr>start = 0, end' = 10, score = 0.9, entity_type = ''PERSON''\<rparr>,
                     \<lparr>start = 12, end' = 20, score = 0.8, entity_type = ''EMAIL_ADDRESS''\<rparr>,
                     \<lparr>start = 30, end' = 40, score = 0.7, entity_type = ''PERSON''\<rparr>],
      entitiesByMessage = [], language = ''en'', languageFallback = False, scanTimeMs = 50\<rparr>
     \<lparr>default = upstream, on_pii_detected = local\<rparr>
     (Some \<lparr>detected = False, matches = [], redactions = []\<rparr>)
     (Some route_local)
   = \<lparr>provider = local, reason = ''PII detected: PERSON, EMAIL_ADDRESS''\<rparr>
   \<and> decideRoute
     \<lparr>hasPII = False, newEntities = [],
      entitiesByMessage = [], language = ''en'', languageFallback = False, scanTimeMs = 50\<rparr>
     \<lparr>default = upstream, on_pii_detected = local\<rparr>
     None None
   = \<lparr>provider = upstream, reason = ''No PII detected''\<rparr>"
  using decideRoute_precedence
    [of "\<lparr>detected = True,
          matches = [\<lparr>type = ''API_KEY_AWS'', count = 1\<rparr>, \<lparr>type = ''JWT_TOKEN'', count = 2\<rparr>],
          redactions = []\<rparr>"
        "Some route_local"
        "\<lparr>hasPII = True,
          newEntities = [\<lparr>start = 0, end' = 10, score = 0.9, entity_type = ''PERSON''\<rparr>],
          entitiesByMessage = [], language = ''en'', languageFallback = False, scanTimeMs = 50\<rparr>"
        "\<lparr>default = upstream, on_pii_detected = upstream\<rparr>"
        None]
    decideRoute_precedence
    [of "\<lparr>detected = False, matches = [], redactions = []\<rparr>"
        "Some route_local"
        "\<lparr>hasPII = True,
          newEntities = [\<lparr>start = 0, end' = 10, score = 0.9, entity_type = ''PERSON''\<rparr>,
                         \<lparr>start = 12, end' = 20, score = 0.8, entity_type = ''EMAIL_ADDRESS''\<rparr>,
                         \<lparr>start = 30, end' = 40, score = 0.7, entity_type = ''PERSON''\<rparr>],
          entitiesByMessage = [], language = ''en'', languageFallback = False, scanTimeMs = 50\<rparr>"
        "\<lparr>default = upstream, on_pii_detected = local\<rparr>"
        "Some \<lparr>detected = False, matches = [], redactions = []\<rparr>"]
    decideRoute_precedence
    [of "\<lparr>detected = False, matches = [], redactions = []\<rparr>"
        None
        "\<lparr>hasPII = False, newEntities = [],
          entitiesByMessage = [], language = ''en'', languageFallback = False, scanTimeMs = 50\<rparr>"
        "\<lparr>default = upstream, on_pii_detected = local\<rparr>"
        None]
  by (simp add: secretsDetected_def)

text \<open>
  C5. With the secrets action \<open>block\<close> or \<open>redact\<close> the decision is the one made with
  no secrets result supplied at all, whatever the secrets result holds: only the PII
  result and the routing configuration are consulted.
\<close>

theorem decideRoute_block_redact_ignored:
  "a = block \<or> a = redact \<Longrightarrow>
     decideRoute p r s (Some a) = decideRoute p r None None"
  by (auto simp: decideRoute_def secretsDetected_def)

theorem decideRoute_block_redact_ignored_witness:
  "decideRoute
     \<lparr>hasPII = True,
      newEntities = [\<lparr>start = 0, end' = 10, score = 0.9, entity_type = ''PERSON''\<rparr>],
      entitiesByMessage = [], language = ''en'', languageFallback = False, scanTimeMs = 50\<rparr>
     \<lparr>default = upstream, on_pii_detected = local\<rparr>
     (Some \<lparr>detected = True, matches = [\<lparr>type = ''JWT_TOKEN'', count = 1\<rparr>], redactions = []\<rparr>)
     (Some block)
   = decideRoute
     \<lparr>hasPII = True,
      newEntities = [\<lparr>start = 0, end' = 10, score = 0.9, entity_type = ''PERSON''\<rparr>],
      entitiesByMessage = [], language = ''en'', languageFallback = False, scanTimeMs = 50\<rparr>
     \<lparr>default = upstream, on_pii_detected = local\<rparr>
     None None"
  using decideRoute_block_redact_ignored [of block] by simp

section \<open>The stream rewriter\<close>

lemmas stream_eval = createUnmaskingStream_def process_chunk_def process_line_def
  process_content_def flush_stream_def finalEvent_def startsWith_def trim_truthy_def
  js_whitespace_def read_content_def opt_chain_def set_content_def ref_runtime_def
  ref_parse_def ref_stream_chunk_def ref_flush_buffer_def unmask_def find_token_def
  partial_token_def content_text_def skip_ws_def json_ws_def is_digit_def unescape_def
  read_number_def own_properties_def quote_def escape_char_def digit_char_def Let_def

lemma pump_values:
  "pump rt pc cfg sc st (map Value chunks @ rest) =
     (fst (process_chunks rt pc cfg sc st chunks)
        @ fst (pump rt pc cfg sc (snd (process_chunks rt pc cfg sc st chunks)) rest),
      snd (pump rt pc cfg sc (snd (process_chunks rt pc cfg sc st chunks)) rest))"
  by (induction chunks arbitrary: st) (simp_all add: split_beta)

lemma process_line_malformed:
  assumes "startsWith line ''data: ''" and "drop 6 line \<noteq> ''[DONE]''"
    and "JSON_parse rt (drop 6 line) = None"
  shows "process_line rt pc cfg sc st line = ([line @ nl], st)"
  using assms by (simp add: process_line_def)

text \<open>
  C8, as stated, fails on the chunk \<open>: keep-alive\n\ndata: {bad\n\n\<close>: the comment
  line and the malformed data line are each enqueued with one newline and the blank
  lines are dropped, so the output is not the input.
\<close>

theorem pass_through_not_identical:
  \<open>createUnmaskingStream ref_runtime
     [Value ('': keep-alive'' @ nl @ nl @ ''data: {bad'' @ nl @ nl), Done :: unit read_result]
     None () None
   = (['': keep-alive'' @ nl, ''data: {bad'' @ nl], Closed)
   \<and> concat ['': keep-alive'' @ nl, ''data: {bad'' @ nl]
       \<noteq> '': keep-alive'' @ nl @ nl @ ''data: {bad'' @ nl @ nl\<close>
  by (simp add: stream_eval)

text \<open>
  C8, amended. Within a chunk, a line that does not begin with the data prefix is
  enqueued unchanged, followed by one newline, when it holds a character that is not
  white space, and is dropped when it is blank. A data line whose payload fails to
  parse is enqueued unchanged, followed by one newline. The line \<open>data: [DONE]\<close> is
  enqueued followed by two newlines. None of them changes the buffers.
\<close>

theorem line_pass_through:
  "(\<not> startsWith line ''data: '' \<and> trim_truthy line
      \<longrightarrow> process_line rt pc cfg sc st line = ([line @ nl], st))
   \<and> (\<not> startsWith line ''data: '' \<and> \<not> trim_truthy line
      \<longrightarrow> process_line rt pc cfg sc st line = ([], st))
   \<and> (startsWith line ''data: '' \<and> drop 6 line \<noteq> ''[DONE]'' \<and> JSON_parse rt (drop 6 line) = None
      \<longrightarrow> process_line rt pc cfg sc st line = ([line @ nl], st))
   \<and> process_line rt pc cfg sc st ''data: [DONE]'' = ([''data: [DONE]'' @ nl @ nl], st)"
  by (simp add: process_line_def startsWith_def)

theorem line_pass_through_witness:
  \<open>process_line ref_runtime (Some [(''[[PERSON_1]]'', ''Alice'')]) () None
       \<lparr>piiBuffer = ''[[PER'', secretsBuffer = []\<rparr> '': keep-alive''
     = (['': keep-alive'' @ nl], \<lparr>piiBuffer = ''[[PER'', secretsBuffer = []\<rparr>)
   \<and> process_line ref_runtime (Some [(''[[PERSON_1]]'', ''Alice'')]) () None
       \<lparr>piiBuffer = ''[[PER'', secretsBuffer = []\<rparr> [CHR 0x20, CHR 0x0D]
     = ([], \<lparr>piiBuffer = ''[[PER'', secretsBuffer = []\<rparr>)
   \<and> process_line ref_runtime (Some [(''[[PERSON_1]]'', ''Alice'')]) () None
       \<lparr>piiBuffer = ''[[PER'', secretsBuffer = []\<rparr> ''data: {"choices":[{"del''
     = ([''data: {"choices":[{"del'' @ nl], \<lparr>piiBuffer = ''[[PER'', secretsBuffer = []\<rparr>)
   \<and> process_line ref_runtime (Some [(''[[PERSON_1]]'', ''Alice'')]) () None
       \<lparr>piiBuffer = ''[[PER'', secretsBuffer = []\<rparr> ''data: [DONE]''
     = ([''data: [DONE]'' @ nl @ nl], \<lparr>piiBuffer = ''[[PER'', secretsBuffer = []\<rparr>)\<close>
proof -
  let ?st = "\<lparr>piiBuffer = ''[[PER'', secretsBuffer = []\<rparr>"
  let ?pc = "Some [(''[[PERSON_1]]'', ''Alice'')]"
  have 1: "\<not> startsWith '': keep-alive'' ''data: '' \<and> trim_truthy '': keep-alive''"
    by (simp add: startsWith_def trim_truthy_def js_whitespace_def)
  have 2: "\<not> startsWith [CHR 0x20, CHR 0x0D] ''data: '' \<and> \<not> trim_truthy [CHR 0x20, CHR 0x0D]"
    by (simp add: startsWith_def trim_truthy_def js_whitespace_def)
  have 3: \<open>startsWith ''data: {"choices":[{"del'' ''data: ''
       \<and> drop 6 ''data: {"choices":[{"del'' \<noteq> ''[DONE]''
       \<and> JSON_parse ref_runtime (drop 6 ''data: {"choices":[{"del'') = None\<close>
    by (simp add: stream_eval)
  show ?thesis
    using line_pass_through [of "'': keep-alive''" ref_runtime ?pc "()" None ?st] 1
      line_pass_through [of "[CHR 0x20, CHR 0x0D]" ref_runtime ?pc "()" None ?st] 2
      line_pass_through [of \<open>''data: {"choices":[{"del''\<close> ref_runtime ?pc "()" None ?st] 3
    by blast
qed

text \<open>
  C9. A data line whose payload fails to parse is enqueued as it is and leaves the
  buffers unchanged; whatever the chunks hold, a stream whose source ends is closed,
  after the flush of the buffers. A read that is rejected makes the output stream
  fail with the same error: the output holds what the chunks before it enqueued and
  nothing else, so no flush event is enqueued and what the buffers held is lost.
\<close>

theorem malformed_line_recovered_read_error_fatal:
  "(startsWith line ''data: '' \<and> drop 6 line \<noteq> ''[DONE]'' \<and> JSON_parse rt (drop 6 line) = None
      \<longrightarrow> process_line rt pc cfg sc st line = ([line @ nl], st))
   \<and> createUnmaskingStream rt (map Value chunks @ Done # rest) pc cfg sc
       = (fst (process_chunks rt pc cfg sc \<lparr>piiBuffer = [], secretsBuffer = []\<rparr> chunks)
            @ flush_stream rt pc cfg sc
                (snd (process_chunks rt pc cfg sc \<lparr>piiBuffer = [], secretsBuffer = []\<rparr> chunks)),
          Closed)
   \<and> createUnmaskingStream rt (map Value chunks @ Rejected e # rest) pc cfg sc
       = (fst (process_chunks rt pc cfg sc \<lparr>piiBuffer = [], secretsBuffer = []\<rparr> chunks),
          Errored e)"
  by (simp add: process_line_malformed createUnmaskingStream_def pump_values)

theorem malformed_line_recovered_read_error_fatal_witness:
  \<open>process_line ref_runtime (Some [(''[[PERSON_1]]'', ''Alice'')]) () None
       \<lparr>piiBuffer = [], secretsBuffer = []\<rparr> ''data: {bad''
     = ([''data: {bad'' @ nl], \<lparr>piiBuffer = [], secretsBuffer = []\<rparr>)
   \<and> createUnmaskingStream ref_runtime
       [Value (''data: {bad'' @ nl @ nl
               @ ''data: {"choices":[{"delta":{"content":"Hi [[PER"}}]}'' @ nl @ nl),
        Done :: string read_result, Value ''ignored'']
       (Some [(''[[PERSON_1]]'', ''Alice'')]) () None
     = ([''data: {bad'' @ nl,
         ''data: {"choices":[{"delta":{"content":"Hi "}}]}'' @ nl @ nl,
         ''data: {"id":"flush-1700000000123","object":"chat.completion.chunk","created":1700000000,"choices":[{"index":0,"delta":{"content":"[[PER"},"finish_reason":null}]}''
           @ nl @ nl],
        Closed)
   \<and> createUnmaskingStream ref_runtime
       [Value (''data: {bad'' @ nl @ nl
               @ ''data: {"choices":[{"delta":{"content":"Hi [[PER"}}]}'' @ nl @ nl),
        Rejected ''connection reset'', Value ''ignored'']
       (Some [(''[[PERSON_1]]'', ''Alice'')]) () None
     = ([''data: {bad'' @ nl,
         ''data: {"choices":[{"delta":{"content":"Hi "}}]}'' @ nl @ nl],
        Errored ''connection reset'')\<close>
proof -
  let ?chunk = \<open>''data: {bad'' @ nl @ nl
               @ ''data: {"choices":[{"delta":{"content":"Hi [[PER"}}]}'' @ nl @ nl\<close>
  let ?pc = "Some [(''[[PERSON_1]]'', ''Alice'')]"
  let ?st = "\<lparr>piiBuffer = [], secretsBuffer = []\<rparr>"
  have h: "startsWith ''data: {bad'' ''data: '' \<and> drop 6 ''data: {bad'' \<noteq> ''[DONE]''
       \<and> JSON_parse ref_runtime (drop 6 ''data: {bad'') = None"
    by (simp add: stream_eval)
  have c: \<open>process_chunks ref_runtime ?pc () None ?st [?chunk]
       = ([''data: {bad'' @ nl, ''data: {"choices":[{"delta":{"content":"Hi "}}]}'' @ nl @ nl],
          \<lparr>piiBuffer = ''[[PER'', secretsBuffer = []\<rparr>)\<close>
    by (simp add: stream_eval)
  have f: \<open>flush_stream ref_runtime ?pc () None \<lparr>piiBuffer = ''[[PER'', secretsBuffer = []\<rparr>
       = [''data: {"id":"flush-1700000000123","object":"chat.completion.chunk","created":1700000000,"choices":[{"index":0,"delta":{"content":"[[PER"},"finish_reason":null}]}''
           @ nl @ nl]\<close>
    by (simp add: stream_eval)
  note T = malformed_line_recovered_read_error_fatal
      [of "''data: {bad''" ref_runtime ?pc "()" None ?st "[?chunk]"
          "[Value ''ignored'']" "''connection reset''"]
  note A = T [THEN conjunct1, THEN mp, OF h]
  note B = T [THEN conjunct2, THEN conjunct1]
  note C = T [THEN conjunct2, THEN conjunct2]
  have D: "map Value [?chunk] @ Done # [Value ''ignored''] = [Value ?chunk, Done, Value ''ignored'']"
    "map Value [?chunk] @ Rejected ''connection reset'' # [Value ''ignored'']
      = [Value ?chunk, Rejected ''connection reset'', Value ''ignored'']"
    by simp_all
  have B': "createUnmaskingStream ref_runtime
       [Value ?chunk, Done :: string read_result, Value ''ignored''] ?pc () None
     = (fst (process_chunks ref_runtime ?pc () None ?st [?chunk])
          @ flush_stream ref_runtime ?pc () None
              (snd (process_chunks ref_runtime ?pc () None ?st [?chunk])),
        Closed)"
    using B unfolding D .
  have C': "createUnmaskingStream ref_runtime
       [Value ?chunk, Rejected ''connection reset'', Value ''ignored''] ?pc () None
     = (fst (process_chunks ref_runtime ?pc () None ?st [?chunk]), Errored ''connection reset'')"
    using C unfolding D .
  show ?thesis
    unfolding B' C' c fst_conv snd_conv f A by simp
qed

text \<open>
  C10. For a data line whose content is non-empty, when the PII step returns an empty
  output, the line's result does not depend on the secrets step (it is the same
  whatever function stands for \<open>unredactStreamChunk\<close>): nothing is enqueued, the
  secrets buffer is unchanged and the PII buffer is the remaining buffer of the PII
  step.
\<close>

theorem pii_withheld_skips_secrets:
  assumes "startsWith line ''data: ''" and "drop 6 line \<noteq> ''[DONE]''"
    and "JSON_parse rt (drop 6 line) = Some parsed"
    and "read_content parsed = Some content" and "js_truthy content"
    and "unmaskStreamChunk rt (piiBuffer st) content pc config = ([], remainingBuffer)"
  shows "process_line (rt\<lparr>unredactStreamChunk := u\<rparr>) (Some pc) config secretsContext st line
           = ([], st\<lparr>piiBuffer := remainingBuffer\<rparr>)
         \<and> process_line rt (Some pc) config secretsContext st line
           = ([], st\<lparr>piiBuffer := remainingBuffer\<rparr>)
         \<and> secretsBuffer (snd (process_line rt (Some pc) config secretsContext st line))
           = secretsBuffer st"
proof -
  have "process_line (rt\<lparr>unredactStreamChunk := v\<rparr>) (Some pc) config secretsContext st line
           = ([], st\<lparr>piiBuffer := remainingBuffer\<rparr>)" for v
    using assms by (cases secretsContext) (simp_all add: process_line_def process_content_def)
  from this [of u] this [of "unredactStreamChunk rt"] show ?thesis by simp
qed

theorem pii_withheld_skips_secrets_witness:
  \<open>process_line
     (ref_runtime\<lparr>unredactStreamChunk := (\<lambda>buffer content ctx. (''unredacted'', ''changed''))\<rparr>)
     (Some [(''[[PERSON_1]]'', ''Alice'')]) () (Some [(''[[SECRET_1]]'', ''sk-live-1'')])
     \<lparr>piiBuffer = [], secretsBuffer = ''[[SEC''\<rparr>
     ''data: {"choices":[{"delta":{"content":"[[PERSON"}}]}''
   = ([], \<lparr>piiBuffer = ''[[PERSON'', secretsBuffer = ''[[SEC''\<rparr>)
   \<and> process_line ref_runtime
     (Some [(''[[PERSON_1]]'', ''Alice'')]) () (Some [(''[[SECRET_1]]'', ''sk-live-1'')])
     \<lparr>piiBuffer = [], secretsBuffer = ''[[SEC''\<rparr>
     ''data: {"choices":[{"delta":{"content":"[[PERSON"}}]}''
   = ([], \<lparr>piiBuffer = ''[[PERSON'', secretsBuffer = ''[[SEC''\<rparr>)\<close>
proof -
  let ?line = \<open>''data: {"choices":[{"delta":{"content":"[[PERSON"}}]}''\<close>
  let ?parsed = "JObj [(''choices'', JArr [JObj [(''delta'', JObj [(''content'', JStr ''[[PERSON'')])]])]"
  let ?st = "\<lparr>piiBuffer = [], secretsBuffer = ''[[SEC''\<rparr>"
  have 1: "startsWith ?line ''data: ''" by (simp add: startsWith_def)
  have 2: "drop 6 ?line \<noteq> ''[DONE]''" by simp
  have 3: "JSON_parse ref_runtime (drop 6 ?line) = Some ?parsed" by (simp add: stream_eval)
  have 4: "read_content ?parsed = Some (JStr ''[[PERSON'')" by (simp add: stream_eval)
  have 5: "js_truthy (JStr ''[[PERSON'')" by simp
  have 6: "unmaskStreamChunk ref_runtime (piiBuffer ?st) (JStr ''[[PERSON'')
             [(''[[PERSON_1]]'', ''Alice'')] () = ([], ''[[PERSON'')"
    by (simp add: stream_eval)
  from pii_withheld_skips_secrets [OF 1 2 3 4 5 6] show ?thesis by simp
qed

subsection \<open>Chunks that end at line ends\<close>

lemma split_nl_nonempty: "split_nl s \<noteq> []"
  by (induction s) (auto split: list.splits)

lemma split_nl_append: "split_nl (a @ CHR 0x0A # b) = split_nl a @ split_nl b"
proof (induction a)
  case Nil
  then show ?case by simp
next
  case (Cons c a)
  obtain l ls where "split_nl a = l # ls" using split_nl_nonempty [of a] by (cases "split_nl a") auto
  then show ?case using Cons by simp
qed

lemma split_nl_no_nl: "CHR 0x0A \<notin> set a \<Longrightarrow> split_nl a = [a]"
  by (induction a) auto

lemma process_lines_append:
  "process_lines rt pc cfg sc st (xs @ ys) =
     (fst (process_lines rt pc cfg sc st xs)
        @ fst (process_lines rt pc cfg sc (snd (process_lines rt pc cfg sc st xs)) ys),
      snd (process_lines rt pc cfg sc (snd (process_lines rt pc cfg sc st xs)) ys))"
  by (induction xs arbitrary: st) (simp_all add: split_beta)

lemma process_line_blank: "process_line rt pc cfg sc st [] = ([], st)"
  by (simp add: process_line_def startsWith_def trim_truthy_def)

lemma process_chunk_empty: "process_chunk rt pc cfg sc st [] = ([], st)"
  by (simp add: process_chunk_def process_line_blank)

lemma process_chunk_aligned:
  assumes "line_aligned c"
  shows "process_chunk rt pc cfg sc st (c @ d) =
     (fst (process_chunk rt pc cfg sc st c)
        @ fst (process_chunk rt pc cfg sc (snd (process_chunk rt pc cfg sc st c)) d),
      snd (process_chunk rt pc cfg sc (snd (process_chunk rt pc cfg sc st c)) d))"
proof (cases "c = []")
  case True
  then show ?thesis by (simp add: process_chunk_empty)
next
  case False
  with assms have "c = butlast c @ [CHR 0x0A]"
    by (metis line_aligned_def append_butlast_last_id)
  then obtain c' where c: "c = c' @ [CHR 0x0A]" ..
  have 1: "split_nl (c @ d) = split_nl c' @ split_nl d"
    using split_nl_append [of c' d] by (simp add: c)
  have 2: "split_nl c = split_nl c' @ [[]]"
    using split_nl_append [of c' "[]"] by (simp add: c)
  show ?thesis
    unfolding process_chunk_def 1 2
    by (simp add: process_lines_append process_line_blank)
qed

lemma process_chunks_aligned:
  "\<forall>c\<in>set chunks. line_aligned c \<Longrightarrow>
     process_chunks rt pc cfg sc st chunks = process_chunk rt pc cfg sc st (concat chunks)"
proof (induction chunks arbitrary: st)
  case Nil
  then show ?case by (simp add: process_chunk_empty)
next
  case (Cons c chunks)
  then show ?case by (simp add: process_chunk_aligned split_beta)
qed

subsection \<open>The output as forwarded lines and events\<close>

text \<open>
  The functions that keep the envelopes give, rendered, exactly what the rewriter
  enqueues, with the same buffers.
\<close>

lemma process_content_items:
  "process_content rt pco cfg sco st parsed content =
     (map (render rt) (fst (content_items rt pco cfg sco st parsed content)),
      snd (content_items rt pco cfg sco st parsed content))"
  by (simp add: process_content_def content_items_def content_steps_def split_beta Let_def)

lemma process_line_items:
  "process_line rt pco cfg sco st line =
     (map (render rt) (fst (line_items rt pco cfg sco st line)),
      snd (line_items rt pco cfg sco st line))"
  by (simp add: process_line_def line_items_def process_content_items Let_def
      split: option.splits)

lemma process_lines_items:
  "process_lines rt pco cfg sco st ls =
     (map (render rt) (fst (lines_items rt pco cfg sco st ls)),
      snd (lines_items rt pco cfg sco st ls))"
  by (induction ls arbitrary: st) (simp_all add: process_line_items split_beta)

lemma flush_stream_items:
  "flush_stream rt pco cfg sco st = map (render rt) (flush_items rt pco cfg sco st)"
  by (simp add: flush_stream_def flush_items_def flush_text_def Let_def)

lemma buffers_at_end_items:
  "buffers_at_end rt pco cfg sco stream =
     snd (lines_items rt pco cfg sco \<lparr>piiBuffer = [], secretsBuffer = []\<rparr> (split_nl stream))"
  by (simp add: buffers_at_end_def process_chunk_def process_lines_items)

lemma whole_stream_items:
  "createUnmaskingStream rt [Value stream, Done] pco cfg sco =
     (map (render rt) (stream_items rt pco cfg sco stream), Closed)"
  by (simp add: createUnmaskingStream_def process_chunk_def process_lines_items
      flush_stream_items stream_items_def content_part_def buffers_at_end_items)

lemma aligned_chunks_whole:
  assumes "\<forall>c\<in>set chunks. line_aligned c"
  shows "createUnmaskingStream rt (map Value chunks @ [Done]) pco cfg sco =
         createUnmaskingStream rt [Value (concat chunks), Done] pco cfg sco"
  using process_chunks_aligned [OF assms, of rt pco cfg sco "\<lparr>piiBuffer = [], secretsBuffer = []\<rparr>"]
  by (simp add: createUnmaskingStream_def pump_values split_beta)


lemma get_prop_Some: "get_prop k v = Some x \<Longrightarrow> \<exists>kvs. v = JObj kvs \<and> map_of kvs k = Some x"
  by (cases v) simp_all

lemma opt_chain_Some:
  assumes "opt_chain f v = Some x"
  shows "\<exists>y. v = Some y \<and> y \<noteq> JNull \<and> f y = Some x"
proof (cases v)
  case None
  with assms show ?thesis by (simp add: opt_chain_def)
next
  case (Some y)
  with assms show ?thesis by (cases y) (simp_all add: opt_chain_def)
qed

lemma opt_chain_SomeI: "y \<noteq> JNull \<Longrightarrow> opt_chain f (Some y) = f y"
  by (cases y) (simp_all add: opt_chain_def)

lemma read_content_chain:
  "parsed \<noteq> JNull \<Longrightarrow>
     read_content parsed =
       (case content_chain parsed of
          None \<Rightarrow> Some (JStr [])
        | Some c \<Rightarrow> Some (if js_truthy c then c else JStr []))"
  by (cases parsed) (simp_all add: read_content_def content_chain_def)

lemma read_content_truthy:
  assumes "read_content parsed = Some c" and "js_truthy c"
  shows "\<exists>kvs ch ckvs dkvs.
           parsed = JObj kvs \<and> map_of kvs ''choices'' = Some ch \<and> ch \<noteq> JNull
           \<and> get_index0 ch = Some (JObj ckvs) \<and> map_of ckvs ''delta'' = Some (JObj dkvs)"
proof -
  have nn: "parsed \<noteq> JNull" using assms(1) by (auto simp: read_content_def)
  have "content_chain parsed \<noteq> None"
  proof
    assume "content_chain parsed = None"
    then have "read_content parsed = Some (JStr [])" using nn by (simp add: read_content_chain)
    with assms(1) have "c = JStr []" by simp
    with assms(2) show False by simp
  qed
  then obtain c' where "content_chain parsed = Some c'" by blast
  from opt_chain_Some [OF this [unfolded content_chain_def]]
  obtain d where d: "opt_chain (get_prop ''delta'')
       (opt_chain get_index0 (get_prop ''choices'' parsed)) = Some d" "get_prop ''content'' d = Some c'"
    by blast
  from get_prop_Some [OF d(2)] obtain dkvs where dk: "d = JObj dkvs" by blast
  from opt_chain_Some [OF d(1)]
  obtain c0 where c0: "opt_chain get_index0 (get_prop ''choices'' parsed) = Some c0"
    "get_prop ''delta'' c0 = Some d"
    by blast
  from get_prop_Some [OF c0(2)] obtain ckvs where ck: "c0 = JObj ckvs" "map_of ckvs ''delta'' = Some d"
    by blast
  from opt_chain_Some [OF c0(1)]
  obtain ch where ch: "get_prop ''choices'' parsed = Some ch" "ch \<noteq> JNull"
    "get_index0 ch = Some c0"
    by blast
  from get_prop_Some [OF ch(1)] obtain kvs where "parsed = JObj kvs" "map_of kvs ''choices'' = Some ch"
    by blast
  with ch ck dk show ?thesis by blast
qed

lemma get_index0_set_index0:
  assumes "get_index0 ch = Some (JObj ckvs)"
  shows "get_index0 (set_index0 x ch) = Some x \<and> (set_index0 x ch \<noteq> JNull)"
proof (cases ch)
  case (JArr xs)
  with assms show ?thesis by (cases xs) simp_all
next
  case (JObj kvs)
  then show ?thesis by (simp add: map_of_Map_set)
next
  case (JStr t)
  with assms show ?thesis by (cases t) simp_all
qed (use assms in simp_all)

lemma read_content_set_content:
  assumes "read_content parsed = Some c" and "js_truthy c" and "p \<noteq> []"
  shows "read_content (set_content parsed (JStr p)) = Some (JStr p)"
proof -
  from read_content_truthy [OF assms(1,2)] obtain kvs ch ckvs dkvs where
    s: "parsed = JObj kvs" "map_of kvs ''choices'' = Some ch" "ch \<noteq> JNull"
       "get_index0 ch = Some (JObj ckvs)" "map_of ckvs ''delta'' = Some (JObj dkvs)"
    by blast
  define d' where "d' = JObj (Map_set dkvs ''content'' (JStr p))"
  define c0' where "c0' = JObj (Map_set ckvs ''delta'' d')"
  define ch' where "ch' = set_index0 c0' ch"
  have i: "get_index0 ch' = Some c0'" "ch' \<noteq> JNull"
    using get_index0_set_index0 [OF s(4), of c0'] by (simp_all add: ch'_def)
  have sc: "set_content parsed (JStr p) = JObj (Map_set kvs ''choices'' ch')"
    using s by (simp add: set_content_def ch'_def c0'_def d'_def)
  have 1: "get_prop ''choices'' (JObj (Map_set kvs ''choices'' ch')) = Some ch'"
    by (simp add: map_of_Map_set)
  have 2: "get_prop ''delta'' c0' = Some d'" by (simp add: c0'_def map_of_Map_set)
  have 3: "get_prop ''content'' d' = Some (JStr p)" by (simp add: d'_def map_of_Map_set)
  have 4: "c0' \<noteq> JNull" "d' \<noteq> JNull" by (simp_all add: c0'_def d'_def)
  have "content_chain (JObj (Map_set kvs ''choices'' ch')) = Some (JStr p)"
    unfolding content_chain_def 1 opt_chain_SomeI [OF i(2)] i(1) opt_chain_SomeI [OF 4(1)] 2
      opt_chain_SomeI [OF 4(2)] 3 ..
  then show ?thesis
    unfolding sc using assms(3) by (simp add: read_content_chain)
qed

lemma read_content_finalEvent: "f \<noteq> [] \<Longrightarrow> read_content (finalEvent rt f) = Some (JStr f)"
  by (simp add: read_content_def finalEvent_def opt_chain_def)

lemma read_content_falsy:
  assumes "read_content parsed = Some c" and "\<not> js_truthy c"
  shows "c = JStr []"
proof -
  have nn: "parsed \<noteq> JNull" using assms(1) by (auto simp: read_content_def)
  show ?thesis
    using assms by (cases "content_chain parsed") (auto simp: read_content_chain [OF nn] split: if_splits)
qed


lemma set_split_nl: "l \<in> set (split_nl s) \<Longrightarrow> CHR 0x0A \<notin> set l"
proof (induction s arbitrary: l)
  case Nil
  then show ?case by simp
next
  case (Cons c s)
  obtain x xs where x: "split_nl s = x # xs" using split_nl_nonempty [of s] by (cases "split_nl s") auto
  show ?case
  proof (cases "c = CHR 0x0A")
    case True
    with Cons show ?thesis by auto
  next
    case False
    with Cons.prems x have "l = c # x \<or> l \<in> set xs" by simp
    then show ?thesis using Cons.IH [of x] Cons.IH [of l] x False by auto
  qed
qed

lemma line_content_blank: "line_content rt [] = []"
  by (simp add: line_content_def startsWith_def)

lemma forwarded_line:
  assumes "CHR 0x0A \<notin> set l" and "line_content rt l = []"
  shows "item_content rt (Forwarded (l @ nl)) = []"
    and "item_content rt (Forwarded (l @ nl @ nl)) = []"
proof -
  have 1: "split_nl (l @ nl) = [l, []]"
    using split_nl_append [of l "[]"] split_nl_no_nl [OF assms(1)] by simp
  have 2: "split_nl (l @ nl @ nl) = [l, [], []]"
    using split_nl_append [of l nl] split_nl_no_nl [OF assms(1)] by simp
  show "item_content rt (Forwarded (l @ nl)) = []"
    by (simp add: stream_text_def 1 assms(2) line_content_blank)
  show "item_content rt (Forwarded (l @ nl @ nl)) = []"
    unfolding item_content.simps stream_text_def 2
    by (simp add: assms(2) line_content_blank)
qed

lemma content_steps_text:
  assumes "pii_step_meets rt pco cfg U1" and "secrets_step_meets rt sco U2"
    and "buffers_used pco sco st"
  shows "snd (content_steps rt pco cfg sco st (JStr m))
           = JStr (content_text (snd (content_steps rt pco cfg sco st (JStr m))))"
    and "buffers_used pco sco (fst (content_steps rt pco cfg sco st (JStr m)))"
    and "m \<noteq> [] \<Longrightarrow>
         content_text (snd (content_steps rt pco cfg sco st (JStr m)))
           @ U2 (secretsBuffer (fst (content_steps rt pco cfg sco st (JStr m)))
                 @ U1 (piiBuffer (fst (content_steps rt pco cfg sco st (JStr m))) @ f))
         = U2 (secretsBuffer st @ U1 (piiBuffer st @ m @ f))"
proof -
  show "snd (content_steps rt pco cfg sco st (JStr m))
           = JStr (content_text (snd (content_steps rt pco cfg sco st (JStr m))))"
    by (cases pco; cases sco) (simp_all add: content_steps_def content_text_def split_beta)
  show "buffers_used pco sco (fst (content_steps rt pco cfg sco st (JStr m)))"
    using assms(3)
    by (cases pco; cases sco) (simp_all add: content_steps_def buffers_used_def split_beta)
  assume m: "m \<noteq> []"
  show "content_text (snd (content_steps rt pco cfg sco st (JStr m)))
           @ U2 (secretsBuffer (fst (content_steps rt pco cfg sco st (JStr m)))
                 @ U1 (piiBuffer (fst (content_steps rt pco cfg sco st (JStr m))) @ f))
         = U2 (secretsBuffer st @ U1 (piiBuffer st @ m @ f))"
  proof (cases pco)
    case None
    then have u1: "U1 s = s" for s using assms(1) by (simp add: pii_step_meets_def)
    have b1: "piiBuffer st = []" using assms(3) None by (simp add: buffers_used_def)
    show ?thesis
    proof (cases sco)
      case n: None
      then have u2: "U2 s = s" for s using assms(2) by (simp add: secrets_step_meets_def)
      have b2: "secretsBuffer st = []" using assms(3) n by (simp add: buffers_used_def)
      show ?thesis
        using None n by (simp add: content_steps_def content_text_def u1 u2 b1 b2)
    next
      case (Some sc)
      have c2: "fst (unredactStreamChunk rt b (JStr c) sc)
                     @ U2 (snd (unredactStreamChunk rt b (JStr c) sc) @ g) = U2 (b @ c @ g)" for b c g
        using assms(2) Some by (simp add: secrets_step_meets_def)
      show ?thesis
        using None Some m c2 [of "secretsBuffer st" m f]
        by (simp add: content_steps_def content_text_def u1 b1 split_beta)
    qed
  next
    case (Some pc)
    have c1: "fst (unmaskStreamChunk rt b (JStr c) pc cfg)
                     @ U1 (snd (unmaskStreamChunk rt b (JStr c) pc cfg) @ g) = U1 (b @ c @ g)" for b c g
      using assms(1) Some by (simp add: pii_step_meets_def)
    define o1 where "o1 = fst (unmaskStreamChunk rt (piiBuffer st) (JStr m) pc cfg)"
    define r1 where "r1 = snd (unmaskStreamChunk rt (piiBuffer st) (JStr m) pc cfg)"
    have h1: "o1 @ U1 (r1 @ f) = U1 (piiBuffer st @ m @ f)"
      unfolding o1_def r1_def by (rule c1)
    show ?thesis
    proof (cases sco)
      case n: None
      then have u2: "U2 s = s" for s using assms(2) by (simp add: secrets_step_meets_def)
      have b2: "secretsBuffer st = []" using assms(3) n by (simp add: buffers_used_def)
      show ?thesis
        using Some n h1
        by (simp add: content_steps_def content_text_def u2 b2 split_beta o1_def r1_def)
    next
      case s: (Some sc)
      have c2: "fst (unredactStreamChunk rt b (JStr c) sc)
                     @ U2 (snd (unredactStreamChunk rt b (JStr c) sc) @ g) = U2 (b @ c @ g)" for b c g
        using assms(2) s by (simp add: secrets_step_meets_def)
      show ?thesis
      proof (cases "o1 = []")
        case True
        then have "U1 (r1 @ f) = U1 (piiBuffer st @ m @ f)" using h1 by simp
        then show ?thesis
          using Some s True
          by (simp add: content_steps_def content_text_def split_beta o1_def [symmetric]
              r1_def [symmetric])
      next
        case False
        have "fst (unredactStreamChunk rt (secretsBuffer st) (JStr o1) sc)
                @ U2 (snd (unredactStreamChunk rt (secretsBuffer st) (JStr o1) sc) @ U1 (r1 @ f))
              = U2 (secretsBuffer st @ o1 @ U1 (r1 @ f))"
          by (rule c2)
        then show ?thesis
          using Some s False h1
          by (simp add: content_steps_def content_text_def split_beta o1_def [symmetric]
              r1_def [symmetric])
      qed
    qed
  qed
qed


lemma data_line_done:
  assumes "startsWith l ''data: ''" and "drop 6 l = ''[DONE]''"
  shows "l = ''data: [DONE]''"
proof -
  have "length ''data: '' = 6" by simp
  then have "take 6 l = ''data: ''" using assms(1) unfolding startsWith_def by (simp only:)
  then have "take 6 l @ drop 6 l = ''data: [DONE]''" using assms(2) by simp
  then show ?thesis by (simp only: append_take_drop_id)
qed

lemma data_line_drop:
  assumes "startsWith l ''data: ''"
  shows "''data: '' @ drop 6 l = l"
proof -
  have "length ''data: '' = 6" by simp
  then have "take 6 l = ''data: ''" using assms(1) unfolding startsWith_def by (simp only:)
  then have "''data: '' @ drop 6 l = take 6 l @ drop 6 l" by simp
  then show ?thesis by (simp only: append_take_drop_id)
qed

lemma delivered_simps:
  "delivered rt [] = []"
  "delivered rt [x] = item_content rt x"
  "delivered rt (xs @ ys) = delivered rt xs @ delivered rt ys"
  by (simp_all add: delivered_def)

lemma content_items_text:
  assumes "pii_step_meets rt pco cfg U1" and "secrets_step_meets rt sco U2"
    and "buffers_used pco sco st"
    and "read_content parsed = Some (JStr m)" and "m \<noteq> []"
  shows "delivered rt (fst (content_items rt pco cfg sco st parsed (JStr m)))
           @ U2 (secretsBuffer (snd (content_items rt pco cfg sco st parsed (JStr m)))
                 @ U1 (piiBuffer (snd (content_items rt pco cfg sco st parsed (JStr m))) @ f))
         = U2 (secretsBuffer st @ U1 (piiBuffer st @ m @ f))"
    and "buffers_used pco sco (snd (content_items rt pco cfg sco st parsed (JStr m)))"
proof -
  define st' where "st' = fst (content_steps rt pco cfg sco st (JStr m))"
  define p where "p = content_text (snd (content_steps rt pco cfg sco st (JStr m)))"
  have cs: "content_steps rt pco cfg sco st (JStr m) = (st', JStr p)"
    using content_steps_text(1) [OF assms(1,2,3), of m]
    by (simp add: st'_def p_def prod_eq_iff)
  have inv: "buffers_used pco sco st'"
    unfolding st'_def by (rule content_steps_text(2) [OF assms(1,2,3)])
  have eq: "p @ U2 (secretsBuffer st' @ U1 (piiBuffer st' @ f))
              = U2 (secretsBuffer st @ U1 (piiBuffer st @ m @ f))"
    unfolding st'_def p_def by (rule content_steps_text(3) [OF assms(1,2,3,5)])
  have ci: "content_items rt pco cfg sco st parsed (JStr m)
              = (if p \<noteq> [] then [Event (set_content parsed (JStr p))] else [], st')"
    by (simp add: content_items_def cs)
  have tr: "js_truthy (JStr m)" using assms(5) by simp
  have d: "delivered rt (fst (content_items rt pco cfg sco st parsed (JStr m))) = p"
  proof (cases "p = []")
    case True
    then show ?thesis by (simp add: ci delivered_simps)
  next
    case False
    then show ?thesis
      using read_content_set_content [OF assms(4) tr False]
      by (simp add: ci delivered_simps)
  qed
  show "delivered rt (fst (content_items rt pco cfg sco st parsed (JStr m)))
           @ U2 (secretsBuffer (snd (content_items rt pco cfg sco st parsed (JStr m)))
                 @ U1 (piiBuffer (snd (content_items rt pco cfg sco st parsed (JStr m))) @ f))
         = U2 (secretsBuffer st @ U1 (piiBuffer st @ m @ f))"
    unfolding d using eq by (simp add: ci)
  show "buffers_used pco sco (snd (content_items rt pco cfg sco st parsed (JStr m)))"
    using inv by (simp add: ci)
qed

lemma line_items_text:
  assumes "pii_step_meets rt pco cfg U1" and "secrets_step_meets rt sco U2"
    and "buffers_used pco sco st"
    and "text_line rt l" and "CHR 0x0A \<notin> set l"
  shows "delivered rt (fst (line_items rt pco cfg sco st l))
           @ U2 (secretsBuffer (snd (line_items rt pco cfg sco st l))
                 @ U1 (piiBuffer (snd (line_items rt pco cfg sco st l)) @ f))
         = U2 (secretsBuffer st @ U1 (piiBuffer st @ line_content rt l @ f))
         \<and> buffers_used pco sco (snd (line_items rt pco cfg sco st l))"
proof (cases "startsWith l ''data: ''")
  case False
  then have lc: "line_content rt l = []" by (simp add: line_content_def)
  show ?thesis
    using False forwarded_line(1) [OF assms(5) lc, of ] assms(3)
    by (simp add: line_items_def lc delivered_simps del: item_content.simps)
next
  case sw: True
  show ?thesis
  proof (cases "drop 6 l = ''[DONE]''")
    case True
    have l: "l = ''data: [DONE]''" by (rule data_line_done [OF sw True])
    have lc: "line_content rt l = []" using True by (simp add: line_content_def)
    have li: "line_items rt pco cfg sco st l = ([Forwarded (l @ nl @ nl)], st)"
      using sw True by (simp add: line_items_def) (simp add: l)
    show ?thesis
      unfolding li using forwarded_line(2) [OF assms(5) lc] assms(3)
      by (simp add: lc delivered_simps del: item_content.simps)
  next
    case nd: False
    show ?thesis
    proof (cases "JSON_parse rt (drop 6 l)")
      case None
      have lc: "line_content rt l = []" using None by (simp add: line_content_def)
      have li: "line_items rt pco cfg sco st l = ([Forwarded (l @ nl)], st)"
        using sw nd None by (simp add: line_items_def)
      show ?thesis
        unfolding li using forwarded_line(1) [OF assms(5) lc] assms(3)
        by (simp add: lc delivered_simps del: item_content.simps)
    next
      case (Some parsed)
      show ?thesis
      proof (cases "read_content parsed")
        case None
        have lc: "line_content rt l = []" using Some None by (simp add: line_content_def)
        have li: "line_items rt pco cfg sco st l = ([Forwarded (l @ nl)], st)"
          using sw nd Some None by (simp add: line_items_def)
        show ?thesis
          unfolding li using forwarded_line(1) [OF assms(5) lc] assms(3)
          by (simp add: lc delivered_simps del: item_content.simps)
      next
        case c: (Some c)
        show ?thesis
        proof (cases "js_truthy c")
          case False
          have "c = JStr []" by (rule read_content_falsy [OF c False])
          then have lc: "line_content rt l = []" using Some c by (simp add: line_content_def)
          have "line_items rt pco cfg sco st l = ([Forwarded (''data: '' @ drop 6 l @ nl @ nl)], st)"
            using sw nd Some c False by (simp add: line_items_def)
          moreover have "''data: '' @ drop 6 l @ nl @ nl = l @ nl @ nl"
            using data_line_drop [OF sw] by (metis append_assoc)
          ultimately have li: "line_items rt pco cfg sco st l = ([Forwarded (l @ nl @ nl)], st)"
            by (simp only:)
          show ?thesis
            unfolding li using forwarded_line(2) [OF assms(5) lc] assms(3)
            by (simp add: lc delivered_simps del: item_content.simps)
        next
          case True
          have "\<exists>m. c = JStr m"
            using assms(4) sw nd Some c True
            by (cases c) (simp_all add: text_line_def)
          then obtain m where m: "c = JStr m" by blast
          have mne: "m \<noteq> []" using True m by simp
          have rc: "read_content parsed = Some (JStr m)" using c m by simp
          have lc: "line_content rt l = m" using sw nd Some rc by (simp add: line_content_def)
          have li: "line_items rt pco cfg sco st l = content_items rt pco cfg sco st parsed (JStr m)"
            using sw nd Some rc mne by (simp add: line_items_def)
          show ?thesis
            unfolding li lc
            using content_items_text [OF assms(1,2,3) rc mne] by blast
        qed
      qed
    qed
  qed
qed

lemma lines_items_text:
  assumes "pii_step_meets rt pco cfg U1" and "secrets_step_meets rt sco U2"
  shows "buffers_used pco sco st \<Longrightarrow> \<forall>l\<in>set ls. text_line rt l \<and> CHR 0x0A \<notin> set l \<Longrightarrow>
         delivered rt (fst (lines_items rt pco cfg sco st ls))
           @ U2 (secretsBuffer (snd (lines_items rt pco cfg sco st ls))
                 @ U1 (piiBuffer (snd (lines_items rt pco cfg sco st ls)) @ f))
         = U2 (secretsBuffer st @ U1 (piiBuffer st @ concat (map (line_content rt) ls) @ f))
         \<and> buffers_used pco sco (snd (lines_items rt pco cfg sco st ls))"
proof (induction ls arbitrary: st f)
  case Nil
  then show ?case by (simp add: delivered_simps)
next
  case (Cons l ls)
  define st1 where "st1 = snd (line_items rt pco cfg sco st l)"
  define o1 where "o1 = fst (line_items rt pco cfg sco st l)"
  have tl: "text_line rt l" "CHR 0x0A \<notin> set l" using Cons.prems(2) by simp_all
  have rest: "\<forall>l\<in>set ls. text_line rt l \<and> CHR 0x0A \<notin> set l" using Cons.prems(2) by simp
  have step: "delivered rt o1 @ U2 (secretsBuffer st1 @ U1 (piiBuffer st1 @ g))
                = U2 (secretsBuffer st @ U1 (piiBuffer st @ line_content rt l @ g))" for g
    unfolding o1_def st1_def
    using line_items_text [OF assms Cons.prems(1) tl] by blast
  have inv1: "buffers_used pco sco st1"
    unfolding st1_def using line_items_text [OF assms Cons.prems(1) tl] by blast
  note ih = Cons.IH [OF inv1 rest]
  have unf: "lines_items rt pco cfg sco st (l # ls)
               = (o1 @ fst (lines_items rt pco cfg sco st1 ls),
                  snd (lines_items rt pco cfg sco st1 ls))"
    by (simp add: o1_def st1_def split_beta)
  have "delivered rt (o1 @ fst (lines_items rt pco cfg sco st1 ls))
          @ U2 (secretsBuffer (snd (lines_items rt pco cfg sco st1 ls))
                @ U1 (piiBuffer (snd (lines_items rt pco cfg sco st1 ls)) @ f))
        = delivered rt o1
          @ U2 (secretsBuffer st1 @ U1 (piiBuffer st1 @ concat (map (line_content rt) ls) @ f))"
    using ih [of f] by (simp add: delivered_simps)
  also have "\<dots> = U2 (secretsBuffer st
                       @ U1 (piiBuffer st @ line_content rt l @ concat (map (line_content rt) ls) @ f))"
    by (rule step)
  finally show ?case
    unfolding unf using ih [of f] by simp
qed

lemma flush_text_meets:
  assumes "pii_step_meets rt pco cfg U1" and "secrets_step_meets rt sco U2"
    and "buffers_used pco sco st"
  shows "flush_text rt pco cfg sco st = U1 (piiBuffer st) @ U2 (secretsBuffer st)"
proof -
  have u1: "U1 [] = []" and u2: "U2 [] = []"
    using assms(1,2) by (simp_all add: pii_step_meets_def secrets_step_meets_def)
  have a: "(if piiBuffer st \<noteq> [] \<and> pco \<noteq> None
             then (case pco of
                     Some pc \<Rightarrow> flushStreamBuffer rt (piiBuffer st) pc cfg
                   | None \<Rightarrow> [])
             else if piiBuffer st \<noteq> [] then piiBuffer st
             else []) = U1 (piiBuffer st)"
    using assms(1,3) u1
    by (cases pco) (auto simp add: pii_step_meets_def buffers_used_def)
  have b: "(if secretsBuffer st \<noteq> [] \<and> sco \<noteq> None
             then (case sco of
                     Some sc \<Rightarrow> x @ flushRedactionBuffer rt (secretsBuffer st) sc
                   | None \<Rightarrow> x)
             else if secretsBuffer st \<noteq> [] then x @ secretsBuffer st
             else x) = x @ U2 (secretsBuffer st)" for x
    using assms(2,3) u2
    by (cases sco) (auto simp add: secrets_step_meets_def buffers_used_def)
  show ?thesis
    unfolding flush_text_def Let_def a b ..
qed

lemma delivered_flush_items:
  "delivered rt (flush_items rt pco cfg sco st) = flush_text rt pco cfg sco st"
  by (simp add: flush_items_def Let_def delivered_simps read_content_finalEvent)

text \<open>
  With JSON functions that read back what they write, on one line, a client that
  reads the strings enqueued line by line reads the contents delivered.
\<close>

lemma rendered_content:
  assumes "\<And>j. JSON_parse rt (JSON_stringify rt j) = Some j"
    and "\<And>j. CHR 0x0A \<notin> set (JSON_stringify rt j)"
    and "\<And>j. JSON_stringify rt j \<noteq> ''[DONE]''"
  shows "stream_text rt (render rt x) = item_content rt x"
proof (cases x)
  case (Forwarded s)
  then show ?thesis by simp
next
  case (Event j)
  let ?l = "''data: '' @ JSON_stringify rt j"
  have nonl: "CHR 0x0A \<notin> set ?l" using assms(2) [of j] by simp
  have sp: "split_nl (?l @ nl @ nl) = [?l, [], []]"
    using split_nl_append [of ?l nl] split_nl_no_nl [OF nonl] by simp
  have lc: "line_content rt ?l = item_content rt (Event j)"
    using assms(1) [of j] assms(3) [of j]
    by (simp add: line_content_def startsWith_def)
  have "stream_text rt (?l @ nl @ nl) = line_content rt ?l"
    unfolding stream_text_def sp by (simp add: line_content_blank)
  then show ?thesis using lc Event by simp
qed

lemma delivered_rendered:
  assumes "\<And>j. JSON_parse rt (JSON_stringify rt j) = Some j"
    and "\<And>j. CHR 0x0A \<notin> set (JSON_stringify rt j)"
    and "\<And>j. JSON_stringify rt j \<noteq> ''[DONE]''"
  shows "delivered rt items = concat (map (\<lambda>s. stream_text rt s) (map (render rt) items))"
  using rendered_content [OF assms] by (simp add: delivered_def comp_def)

text \<open>
  C1, as stated, fails for a split inside an SSE line. The stream of the single event
  whose content is \<open>Hi [[PERSON_1]]\<close> is rewritten to the event with content
  \<open>Hi Alice\<close> when it arrives whole. Cut inside the placeholder token, the first
  chunk is a data line that does not parse and the second a line without the data
  prefix: both are enqueued as they are, each followed by a newline, and the
  placeholder is never replaced.
\<close>

theorem mid_line_split_not_unmasked:
  \<open>createUnmaskingStream ref_runtime
     [Value (''data: {"choices":[{"index":0,"delta":{"content":"Hi [[PERSON_1]]"},"finish_reason":null}]}''
             @ nl @ nl),
      Done :: unit read_result]
     (Some [(''[[PERSON_1]]'', ''Alice'')]) () None
   = ([''data: {"choices":[{"index":0,"delta":{"content":"Hi Alice"},"finish_reason":null}]}''
         @ nl @ nl],
      Closed)
   \<and> createUnmaskingStream ref_runtime
     [Value ''data: {"choices":[{"index":0,"delta":{"content":"Hi [[PER'',
      Value (''SON_1]]"},"finish_reason":null}]}'' @ nl @ nl),
      Done :: unit read_result]
     (Some [(''[[PERSON_1]]'', ''Alice'')]) () None
   = ([''data: {"choices":[{"index":0,"delta":{"content":"Hi [[PER'' @ nl,
       ''SON_1]]"},"finish_reason":null}]}'' @ nl],
      Closed)\<close>
  by (simp add: stream_eval)

text \<open>
  C1, amended. Take any stream, any way of cutting it into chunks that each end where
  a line ends, and any configuration: a PII context or none, a secrets context or
  none. Let every data line that parses carry a string content or none, and let the
  PII step and the secrets step meet their contracts with respect to whole-text
  functions \<open>U1\<close> and \<open>U2\<close> (the identity for a context that is not configured). The
  contents of the data events divide the masked text at any place, also inside a
  placeholder token; role and finish events, comments and \<open>[DONE]\<close> may stand between
  them. Then
  \<^item> the rewriter enqueues exactly what it enqueues for the stream given whole, and
    closes;
  \<^item> what it enqueues is, in order, the rendering of the forwarded lines and of the
    envelopes whose content is replaced by the output of the steps, then one flush
    event when the flushed text is not empty;
  \<^item> the contents delivered before the flush, followed by \<open>U2\<close> of the secrets buffer
    and \<open>U1\<close> of the PII buffer behind it, are \<open>U2 (U1 text)\<close> for the text of the
    stream;
  \<^item> the flush delivers \<open>U1\<close> of the PII buffer and then \<open>U2\<close> of the secrets buffer;
  \<^item> so the contents delivered are exactly \<open>U2 (U1 text)\<close> if and only if these two
    agree, and they agree when no secrets context is configured or the PII buffer is
    empty at the end.
\<close>

theorem line_aligned_round_trip:
  assumes "\<forall>c\<in>set chunks. line_aligned c"
    and "\<forall>line\<in>set (split_nl (concat chunks)). text_line rt line"
    and "pii_step_meets rt piiContext config U1"
    and "secrets_step_meets rt secretsContext U2"
  shows "createUnmaskingStream rt (map Value chunks @ [Done]) piiContext config secretsContext
           = createUnmaskingStream rt [Value (concat chunks), Done] piiContext config secretsContext
         \<and> createUnmaskingStream rt (map Value chunks @ [Done]) piiContext config secretsContext
           = (map (render rt) (stream_items rt piiContext config secretsContext (concat chunks)),
              Closed)
         \<and> delivered rt (content_part rt piiContext config secretsContext (concat chunks))
             @ U2 (secretsBuffer (buffers_at_end rt piiContext config secretsContext (concat chunks))
                   @ U1 (piiBuffer (buffers_at_end rt piiContext config secretsContext (concat chunks))))
           = U2 (U1 (stream_text rt (concat chunks)))
         \<and> delivered rt (stream_items rt piiContext config secretsContext (concat chunks))
           = delivered rt (content_part rt piiContext config secretsContext (concat chunks))
             @ U1 (piiBuffer (buffers_at_end rt piiContext config secretsContext (concat chunks)))
             @ U2 (secretsBuffer (buffers_at_end rt piiContext config secretsContext (concat chunks)))
         \<and> (delivered rt (stream_items rt piiContext config secretsContext (concat chunks))
              = U2 (U1 (stream_text rt (concat chunks)))
            \<longleftrightarrow> U1 (piiBuffer (buffers_at_end rt piiContext config secretsContext (concat chunks)))
                @ U2 (secretsBuffer (buffers_at_end rt piiContext config secretsContext (concat chunks)))
              = U2 (secretsBuffer (buffers_at_end rt piiContext config secretsContext (concat chunks))
                    @ U1 (piiBuffer (buffers_at_end rt piiContext config secretsContext (concat chunks)))))
         \<and> (secretsContext = None
              \<or> piiBuffer (buffers_at_end rt piiContext config secretsContext (concat chunks)) = []
            \<longrightarrow> delivered rt (stream_items rt piiContext config secretsContext (concat chunks))
                = U2 (U1 (stream_text rt (concat chunks))))"
proof -
  define stream where "stream = concat chunks"
  define st0 :: stream_state where "st0 = \<lparr>piiBuffer = [], secretsBuffer = []\<rparr>"
  define D where "D = delivered rt (content_part rt piiContext config secretsContext stream)"
  define b1 where "b1 = piiBuffer (buffers_at_end rt piiContext config secretsContext stream)"
  define b2 where "b2 = secretsBuffer (buffers_at_end rt piiContext config secretsContext stream)"
  have u1: "U1 [] = []" and u2: "U2 [] = []"
    using assms(3,4) by (simp_all add: pii_step_meets_def secrets_step_meets_def)
  have inv0: "buffers_used piiContext secretsContext st0"
    by (simp add: buffers_used_def st0_def)
  have ls: "\<forall>l\<in>set (split_nl stream). text_line rt l \<and> CHR 0x0A \<notin> set l"
    using assms(2) set_split_nl [of _ stream] by (auto simp add: stream_def)
  have be: "buffers_at_end rt piiContext config secretsContext stream
              = snd (lines_items rt piiContext config secretsContext st0 (split_nl stream))"
    unfolding st0_def by (rule buffers_at_end_items)
  have cp: "content_part rt piiContext config secretsContext stream
              = fst (lines_items rt piiContext config secretsContext st0 (split_nl stream))"
    by (simp add: content_part_def st0_def)
  note L = lines_items_text [OF assms(3,4) inv0 ls, of "[]", folded be cp]
  have C: "D @ U2 (b2 @ U1 b1) = U2 (U1 (stream_text rt stream))"
    using L by (simp add: D_def b1_def b2_def stream_text_def st0_def)
  have inv: "buffers_used piiContext secretsContext
               (buffers_at_end rt piiContext config secretsContext stream)"
    using L by simp
  have fl: "delivered rt (flush_items rt piiContext config secretsContext
               (buffers_at_end rt piiContext config secretsContext stream)) = U1 b1 @ U2 b2"
    unfolding delivered_flush_items b1_def b2_def
    by (rule flush_text_meets [OF assms(3,4) inv])
  have Dd: "delivered rt (stream_items rt piiContext config secretsContext stream)
              = D @ U1 b1 @ U2 b2"
    by (simp add: stream_items_def delivered_simps fl D_def)
  have E: "delivered rt (stream_items rt piiContext config secretsContext stream)
             = U2 (U1 (stream_text rt stream))
           \<longleftrightarrow> U1 b1 @ U2 b2 = U2 (b2 @ U1 b1)"
    unfolding Dd C [symmetric] by simp
  have F: "secretsContext = None \<or> b1 = []
           \<longrightarrow> delivered rt (stream_items rt piiContext config secretsContext stream)
               = U2 (U1 (stream_text rt stream))"
  proof
    assume "secretsContext = None \<or> b1 = []"
    then have "U1 b1 @ U2 b2 = U2 (b2 @ U1 b1)"
    proof
      assume n: "secretsContext = None"
      then have "U2 s = s" for s using assms(4) by (simp add: secrets_step_meets_def)
      moreover have "b2 = []" using inv n by (simp add: buffers_used_def b2_def)
      ultimately show ?thesis by simp
    next
      assume "b1 = []"
      then show ?thesis by (simp add: u1)
    qed
    then show "delivered rt (stream_items rt piiContext config secretsContext stream)
                 = U2 (U1 (stream_text rt stream))"
      using E by simp
  qed
  have A: "createUnmaskingStream rt (map Value chunks @ [Done]) piiContext config secretsContext
             = createUnmaskingStream rt [Value stream, Done] piiContext config secretsContext"
    unfolding stream_def by (rule aligned_chunks_whole [OF assms(1)])
  have B: "createUnmaskingStream rt (map Value chunks @ [Done]) piiContext config secretsContext
             = (map (render rt) (stream_items rt piiContext config secretsContext stream), Closed)"
    unfolding A by (rule whole_stream_items)
  show ?thesis
    using A B C Dd E F unfolding D_def b1_def b2_def stream_def by blast
qed


subsection \<open>The reference step meets the contract\<close>

lemma withheld_suffix: "\<exists>p. str = p @ withheld ctx str"
proof (induction str)
  case Nil
  then show ?case by simp
next
  case (Cons c cs)
  then obtain p where "cs = p @ withheld ctx cs" by blast
  then have eq: "c # cs = (c # p) @ withheld ctx cs" by simp
  show ?case
  proof (cases "partial_token ctx (c # cs)")
    case True
    then have "c # cs = [] @ withheld ctx (c # cs)" by simp
    then show ?thesis by (rule exI)
  next
    case False
    then have "c # cs = (c # p) @ withheld ctx (c # cs)" using eq by simp
    then show ?thesis by (rule exI)
  qed
qed

lemma withheld_partial: "withheld ctx str \<noteq> [] \<Longrightarrow> partial_token ctx (withheld ctx str)"
  by (induction str) (auto split: if_splits)

lemma withheld_longest:
  "partial_token ctx s \<Longrightarrow> str = p @ s \<Longrightarrow> length s \<le> length (withheld ctx str)"
proof (induction str arbitrary: p)
  case Nil
  then show ?case by simp
next
  case (Cons c cs)
  show ?case
  proof (cases "partial_token ctx (c # cs)")
    case True
    have "length (c # cs) = length p + length s" using Cons.prems(2) by (metis length_append)
    then show ?thesis using True by simp
  next
    case False
    with Cons.prems obtain p' where "p = c # p'" by (cases p) auto
    with Cons.prems(2) have "cs = p' @ s" by simp
    from Cons.IH [OF Cons.prems(1) this] False show ?thesis by simp
  qed
qed

lemma startsWith_iff: "startsWith a t \<longleftrightarrow> (\<exists>r. a = t @ r)"
proof
  assume "startsWith a t"
  then have "a = t @ drop (length t) a"
    unfolding startsWith_def by (metis append_take_drop_id)
  then show "\<exists>r. a = t @ r" by (rule exI)
next
  assume "\<exists>r. a = t @ r"
  then show "startsWith a t" by (auto simp: startsWith_def)
qed

lemma startsWith_append:
  "startsWith (a @ r) t \<Longrightarrow> length t \<le> length a \<Longrightarrow> startsWith a t"
  by (simp add: startsWith_def)

lemma startsWith_length: "startsWith a t \<Longrightarrow> length t \<le> length a"
  by (auto simp: startsWith_iff)

lemma startsWith_appendI: "startsWith a t \<Longrightarrow> startsWith (a @ r) t"
  by (auto simp: startsWith_iff)

lemma unmask_from_append:
  assumes "\<forall>k<length p. \<forall>(t, original)\<in>set ctx.
             t \<noteq> [] \<and> startsWith (drop k p @ r) t \<longrightarrow> length t \<le> length p - k"
    and "n \<le> length p"
  shows "unmask_from ctx n (p @ r) = unmask_from ctx n p @ unmask_from ctx 0 r"
  using assms
proof (induction p arbitrary: n)
  case Nil
  then show ?case by simp
next
  case (Cons c p)
  have safe: "\<forall>k<length p. \<forall>(t, original)\<in>set ctx.
             t \<noteq> [] \<and> startsWith (drop k p @ r) t \<longrightarrow> length t \<le> length p - k"
  proof (intro allI impI)
    fix k assume "k < length p"
    then have "Suc k < length (c # p)" by simp
    from Cons.prems(1) [rule_format, OF this]
    show "\<forall>(t, original)\<in>set ctx.
             t \<noteq> [] \<and> startsWith (drop k p @ r) t \<longrightarrow> length t \<le> length p - k"
      by simp
  qed
  show ?case
  proof (cases "0 < n")
    case True
    then have "n - 1 \<le> length p" using Cons.prems(2) by simp
    from Cons.IH [OF safe this] True show ?thesis by simp
  next
    case False
    have here: "t \<noteq> [] \<and> startsWith ((c # p) @ r) t \<longrightarrow> length t \<le> length (c # p)"
      if "(t, original) \<in> set ctx" for t original
      using Cons.prems(1) [rule_format, of 0] that by auto
    have same: "find_token ctx ((c # p) @ r) = find_token ctx (c # p)"
      unfolding find_token_def
    proof (rule find_cong [OF refl])
      fix x assume x: "x \<in> set ctx"
      obtain t original where xt: "x = (t, original)" by (cases x)
      show "(case x of (token, original) \<Rightarrow> token \<noteq> [] \<and> startsWith ((c # p) @ r) token)
          = (case x of (token, original) \<Rightarrow> token \<noteq> [] \<and> startsWith (c # p) token)"
      proof (cases "t = []")
        case True
        then show ?thesis by (simp add: xt)
      next
        case False
        have "startsWith ((c # p) @ r) t \<longleftrightarrow> startsWith (c # p) t"
        proof
          assume h: "startsWith ((c # p) @ r) t"
          with here [of t original] x xt False have "length t \<le> length (c # p)" by blast
          with h show "startsWith (c # p) t" by (rule startsWith_append)
        next
          assume "startsWith (c # p) t"
          then show "startsWith ((c # p) @ r) t" by (rule startsWith_appendI)
        qed
        then show ?thesis by (simp only: xt prod.case)
      qed
    qed
    show ?thesis
    proof (cases "find_token ctx (c # p)")
      case None
      then show ?thesis using False same Cons.IH [OF safe, of 0] by simp
    next
      case (Some a)
      obtain t original where a: "a = (t, original)" by (cases a)
      from Some a have "t \<noteq> [] \<and> startsWith (c # p) t"
        by (auto simp: find_token_def find_Some_iff)
      then have "length t - 1 \<le> length p" using startsWith_length [of "c # p" t] by simp
      from Cons.IH [OF safe this] show ?thesis using False same Some a by simp
    qed
  qed
qed

lemma ref_stream_chunk_contract:
  assumes "overlap_free ctx"
  shows "fst (ref_stream_chunk b (JStr c) ctx ())
           @ unmask ctx (snd (ref_stream_chunk b (JStr c) ctx ()) @ f)
         = unmask ctx (b @ c @ f)"
proof -
  define str where "str = b @ c"
  define h where "h = withheld ctx str"
  obtain p where p: "str = p @ h" using withheld_suffix [of str ctx] by (auto simp: h_def)
  have take: "take (length str - length h) str = p" by (simp add: p)
  have safe: "\<forall>k<length p. \<forall>(t, original)\<in>set ctx.
             t \<noteq> [] \<and> startsWith (drop k p @ (h @ f)) t \<longrightarrow> length t \<le> length p - k"
  proof (intro allI impI ballI, clarify)
    fix k t original
    assume k: "k < length p" and t: "(t, original) \<in> set ctx" "startsWith (drop k p @ h @ f) t"
    define s where "s = drop k p"
    have s: "s \<noteq> []" "length s = length p - k" using k by (simp_all add: s_def)
    show "length t \<le> length p - k"
    proof (rule ccontr)
      assume "\<not> length t \<le> length p - k"
      then have long: "length s < length t" using s by simp
      obtain r0 where tk: "s @ h @ f = t @ r0"
        using t(2) by (auto simp: startsWith_iff s_def)
      then obtain u where u: "t = s @ u" "h @ f = u @ r0"
        using long by (auto simp: append_eq_append_conv2)
      have une: "u \<noteq> []" using long u(1) by auto
      show False
      proof (cases "length h < length u")
        case True
        then obtain v where "u = h @ v" using u(2) by (auto simp: append_eq_append_conv2)
        then have "startsWith t (s @ h)" "length (s @ h) < length t"
          using u(1) True by (auto simp: startsWith_iff)
        then have "partial_token ctx (s @ h)"
          using s t(1) by (auto simp: partial_token_def list_ex_iff)
        moreover have "str = take k p @ (s @ h)" by (simp add: p s_def)
        ultimately have "length (s @ h) \<le> length (withheld ctx str)" by (rule withheld_longest)
        then show False using s by (simp add: h_def [symmetric])
      next
        case False
        then obtain v where v: "h = u @ v" using u(2) by (auto simp: append_eq_append_conv2)
        with une have hne: "h \<noteq> []" by auto
        then have "partial_token ctx h" unfolding h_def by (rule withheld_partial)
        then obtain t2 o2 where t2: "(t2, o2) \<in> set ctx" "startsWith t2 h"
          by (auto simp: partial_token_def list_ex_iff)
        then have sw: "startsWith t2 (drop (length s) t)"
          using v u(1) by (auto simp: startsWith_iff)
        have "length s \<in> set [1..<length t]" using s long by (cases s) auto
        with assms t(1) t2(1) have "\<not> startsWith t2 (drop (length s) t)"
          by (fastforce simp: overlap_free_def list_all_iff)
        with sw show False by contradiction
      qed
    qed
  qed
  have A: "unmask ctx (p @ (h @ f)) = unmask ctx p @ unmask ctx (h @ f)"
    unfolding unmask_def using safe by (rule unmask_from_append) simp
  have "(b @ c) @ f = (p @ h) @ f" using p by (simp only: str_def)
  then have B: "b @ c @ f = p @ (h @ f)" by (simp only: append_assoc)
  have "unmask ctx (b @ c @ f) = unmask ctx p @ unmask ctx (h @ f)"
    by (simp only: B A)
  then have "unmask ctx p @ unmask ctx (h @ f) = unmask ctx (b @ c @ f)" by (rule sym)
  then show ?thesis
    by (simp add: ref_stream_chunk_def content_text_def Let_def str_def [symmetric]
        h_def [symmetric] take)
qed

subsection \<open>The order of the flush\<close>

text \<open>
  With both contexts configured and both buffers filled at the end of the stream, the
  flush puts the PII buffer in front of the secrets buffer, although the text the
  secrets step withheld came first. Below, the first content ends with the beginning
  of a secret placeholder and the second is the beginning of a PII placeholder; the
  chunks end at line ends, and the client receives the two beginnings exchanged.
\<close>

lemmas items_eval = stream_items_def content_part_def buffers_at_end_def line_items_def
  content_items_def content_steps_def flush_items_def flush_text_def delivered_def
  stream_text_def line_content_def text_line_def

lemma flush_order_reorders_text:
  \<open>createUnmaskingStream ref_runtime
     [Value (''data: {"choices":[{"index":0,"delta":{"content":"x [[SEC"}}]}'' @ nl @ nl),
      Value (''data: {"choices":[{"index":0,"delta":{"content":"[[PER"}}]}'' @ nl @ nl),
      Done :: unit read_result]
     (Some [(''[[PERSON_1]]'', ''Alice'')]) () (Some [(''[[SECRET_1]]'', ''sk-123'')])
   = ([''data: {"choices":[{"index":0,"delta":{"content":"x "}}]}'' @ nl @ nl,
       ''data: {"id":"flush-1700000000123","object":"chat.completion.chunk","created":1700000000,"choices":[{"index":0,"delta":{"content":"[[PER[[SEC"},"finish_reason":null}]}''
         @ nl @ nl],
      Closed)
   \<and> delivered ref_runtime
       (stream_items ref_runtime (Some [(''[[PERSON_1]]'', ''Alice'')]) ()
          (Some [(''[[SECRET_1]]'', ''sk-123'')])
          (''data: {"choices":[{"index":0,"delta":{"content":"x [[SEC"}}]}'' @ nl @ nl
           @ ''data: {"choices":[{"index":0,"delta":{"content":"[[PER"}}]}'' @ nl @ nl))
     = ''x [[PER[[SEC''
   \<and> unmask [(''[[SECRET_1]]'', ''sk-123'')]
       (unmask [(''[[PERSON_1]]'', ''Alice'')]
          (stream_text ref_runtime
             (''data: {"choices":[{"index":0,"delta":{"content":"x [[SEC"}}]}'' @ nl @ nl
              @ ''data: {"choices":[{"index":0,"delta":{"content":"[[PER"}}]}'' @ nl @ nl)))
     = ''x [[SEC[[PER''\<close>
  by (simp add: stream_eval items_eval)

subsection \<open>A stream with both contexts\<close>

theorem line_aligned_round_trip_witness:
  \<open>createUnmaskingStream ref_runtime
     [Value ('': keep-alive'' @ nl
             @ ''data: {"choices":[{"index":0,"delta":{"role":"assistant"},"finish_reason":null}]}''
             @ nl),
      Value (nl @ ''data: {"choices": [{"index": 0, "delta": {"content": "Hi [[PER"}}]}''
             @ nl @ nl),
      Value (''data: {"choices":[{"index":0,"delta":{"content":"SON_1]], key [[SECRET"}}]}''
             @ nl @ nl
             @ ''data: {"choices":[{"index":0,"delta":{"content":"_1]] [[S"}}]}'' @ nl @ nl),
      Value (''data: {"choices":[{"index":0,"delta":{},"finish_reason":"stop"}]}'' @ nl @ nl
             @ ''data: [DONE]'' @ nl @ nl),
      Done :: unit read_result]
     (Some [(''[[PERSON_1]]'', ''Alice'')]) () (Some [(''[[SECRET_1]]'', ''sk-123'')])
   = (['': keep-alive'' @ nl,
       ''data: {"choices":[{"index":0,"delta":{"role":"assistant"},"finish_reason":null}]}''
         @ nl @ nl,
       ''data: {"choices":[{"index":0,"delta":{"content":"Hi "}}]}'' @ nl @ nl,
       ''data: {"choices":[{"index":0,"delta":{"content":"Alice, key "}}]}'' @ nl @ nl,
       ''data: {"choices":[{"index":0,"delta":{"content":"sk-123 "}}]}'' @ nl @ nl,
       ''data: {"choices":[{"index":0,"delta":{},"finish_reason":"stop"}]}'' @ nl @ nl,
       ''data: [DONE]'' @ nl @ nl,
       ''data: {"id":"flush-1700000000123","object":"chat.completion.chunk","created":1700000000,"choices":[{"index":0,"delta":{"content":"[[S"},"finish_reason":null}]}''
         @ nl @ nl],
      Closed)
   \<and> delivered ref_runtime
       [Forwarded ('': keep-alive'' @ nl),
        Forwarded (''data: {"choices":[{"index":0,"delta":{"role":"assistant"},"finish_reason":null}]}''
                   @ nl @ nl),
        Event (JObj [(''choices'', JArr [JObj [(''index'', JNum ''0''),
                 (''delta'', JObj [(''content'', JStr ''Hi '')])]])]),
        Event (JObj [(''choices'', JArr [JObj [(''index'', JNum ''0''),
                 (''delta'', JObj [(''content'', JStr ''Alice, key '')])]])]),
        Event (JObj [(''choices'', JArr [JObj [(''index'', JNum ''0''),
                 (''delta'', JObj [(''content'', JStr ''sk-123 '')])]])]),
        Forwarded (''data: {"choices":[{"index":0,"delta":{},"finish_reason":"stop"}]}''
                   @ nl @ nl),
        Forwarded (''data: [DONE]'' @ nl @ nl),
        Event (finalEvent ref_runtime ''[[S'')]
     = unmask [(''[[SECRET_1]]'', ''sk-123'')]
         (unmask [(''[[PERSON_1]]'', ''Alice'')] ''Hi [[PERSON_1]], key [[SECRET_1]] [[S'')
   \<and> unmask [(''[[SECRET_1]]'', ''sk-123'')]
         (unmask [(''[[PERSON_1]]'', ''Alice'')] ''Hi [[PERSON_1]], key [[SECRET_1]] [[S'')
     = ''Hi Alice, key sk-123 [[S''\<close>
proof -
  let ?pctx = "[(''[[PERSON_1]]'', ''Alice'')]"
  let ?sctx = "[(''[[SECRET_1]]'', ''sk-123'')]"
  let ?e = "\<lambda>m. JObj [(''choices'', JArr [JObj [(''index'', JNum ''0''),
                 (''delta'', JObj [(''content'', JStr m)])]])]"
  let ?st = "\<lambda>b1 b2. \<lparr>piiBuffer = b1, secretsBuffer = b2\<rparr>"
  let ?chunks = \<open>['': keep-alive'' @ nl
             @ ''data: {"choices":[{"index":0,"delta":{"role":"assistant"},"finish_reason":null}]}''
             @ nl,
      nl @ ''data: {"choices": [{"index": 0, "delta": {"content": "Hi [[PER"}}]}''
             @ nl @ nl,
      ''data: {"choices":[{"index":0,"delta":{"content":"SON_1]], key [[SECRET"}}]}''
             @ nl @ nl
             @ ''data: {"choices":[{"index":0,"delta":{"content":"_1]] [[S"}}]}'' @ nl @ nl,
      ''data: {"choices":[{"index":0,"delta":{},"finish_reason":"stop"}]}'' @ nl @ nl
             @ ''data: [DONE]'' @ nl @ nl]\<close>
  let ?l1 = \<open>''data: {"choices":[{"index":0,"delta":{"role":"assistant"},"finish_reason":null}]}''\<close>
  let ?l2 = \<open>''data: {"choices": [{"index": 0, "delta": {"content": "Hi [[PER"}}]}''\<close>
  let ?l3 = \<open>''data: {"choices":[{"index":0,"delta":{"content":"SON_1]], key [[SECRET"}}]}''\<close>
  let ?l4 = \<open>''data: {"choices":[{"index":0,"delta":{"content":"_1]] [[S"}}]}''\<close>
  let ?l5 = \<open>''data: {"choices":[{"index":0,"delta":{},"finish_reason":"stop"}]}''\<close>
  let ?j1 = \<open>''{"choices":[{"index":0,"delta":{"role":"assistant"},"finish_reason":null}]}''\<close>
  let ?j2 = \<open>''{"choices": [{"index": 0, "delta": {"content": "Hi [[PER"}}]}''\<close>
  let ?j3 = \<open>''{"choices":[{"index":0,"delta":{"content":"SON_1]], key [[SECRET"}}]}''\<close>
  let ?j4 = \<open>''{"choices":[{"index":0,"delta":{"content":"_1]] [[S"}}]}''\<close>
  let ?j5 = \<open>''{"choices":[{"index":0,"delta":{},"finish_reason":"stop"}]}''\<close>
  note parse_eval = ref_parse_def skip_ws_def json_ws_def is_digit_def unescape_def
    read_number_def own_properties_def startsWith_def Let_def
  note line_eval = startsWith_def trim_truthy_def js_whitespace_def read_content_def
    opt_chain_def
  have jp: "JSON_parse ref_runtime = ref_parse" by (simp add: ref_runtime_def)
  have p1: "ref_parse ?j1
              = Some (JObj [(''choices'', JArr [JObj [(''index'', JNum ''0''),
                   (''delta'', JObj [(''role'', JStr ''assistant'')]),
                   (''finish_reason'', JNull)]])])"
    by (simp add: parse_eval)
  have p2: "ref_parse ?j2 = Some (?e ''Hi [[PER'')"
    by (simp add: parse_eval)
  have p3: "ref_parse ?j3 = Some (?e ''SON_1]], key [[SECRET'')"
    by (simp add: parse_eval)
  have p4: "ref_parse ?j4 = Some (?e ''_1]] [[S'')"
    by (simp add: parse_eval)
  have p5: "ref_parse ?j5
              = Some (JObj [(''choices'', JArr [JObj [(''index'', JNum ''0''),
                   (''delta'', JObj []), (''finish_reason'', JStr ''stop'')]])])"
    by (simp add: parse_eval)
  note step_eval = content_steps_def ref_runtime_def ref_stream_chunk_def unmask_def
    find_token_def partial_token_def content_text_def startsWith_def Let_def
  have c2: "content_steps ref_runtime (Some ?pctx) () (Some ?sctx) (?st [] []) (JStr ''Hi [[PER'')
              = (?st ''[[PER'' [], JStr ''Hi '')"
    by (simp add: step_eval)
  have c3: "content_steps ref_runtime (Some ?pctx) () (Some ?sctx) (?st ''[[PER'' [])
              (JStr ''SON_1]], key [[SECRET'')
              = (?st [] ''[[SECRET'', JStr ''Alice, key '')"
    by (simp add: step_eval)
  have c4: "content_steps ref_runtime (Some ?pctx) () (Some ?sctx) (?st [] ''[[SECRET'')
              (JStr ''_1]] [[S'')
              = (?st [] ''[[S'', JStr ''sk-123 '')"
    by (simp add: step_eval)
  have i0: "line_items ref_runtime (Some ?pctx) () (Some ?sctx) st '': keep-alive''
              = ([Forwarded ('': keep-alive'' @ nl)], st)"
       "line_items ref_runtime (Some ?pctx) () (Some ?sctx) st [] = ([], st)"
       "line_items ref_runtime (Some ?pctx) () (Some ?sctx) st ''data: [DONE]''
              = ([Forwarded (''data: [DONE]'' @ nl @ nl)], st)" for st
    by (simp_all add: line_items_def line_eval)
  have i1: "line_items ref_runtime (Some ?pctx) () (Some ?sctx) st ?l1
              = ([Forwarded (?l1 @ nl @ nl)], st)" for st
    by (simp add: line_items_def jp p1 line_eval)
  have i5: "line_items ref_runtime (Some ?pctx) () (Some ?sctx) st ?l5
              = ([Forwarded (?l5 @ nl @ nl)], st)" for st
    by (simp add: line_items_def jp p5 line_eval)
  have i2: "line_items ref_runtime (Some ?pctx) () (Some ?sctx) (?st [] []) ?l2
              = ([Event (?e ''Hi '')], ?st ''[[PER'' [])"
    by (simp add: line_items_def jp p2 line_eval content_items_def c2 set_content_def)
  have i3: "line_items ref_runtime (Some ?pctx) () (Some ?sctx) (?st ''[[PER'' []) ?l3
              = ([Event (?e ''Alice, key '')], ?st [] ''[[SECRET'')"
    by (simp add: line_items_def jp p3 line_eval content_items_def c3 set_content_def)
  have i4: "line_items ref_runtime (Some ?pctx) () (Some ?sctx) (?st [] ''[[SECRET'') ?l4
              = ([Event (?e ''sk-123 '')], ?st [] ''[[S'')"
    by (simp add: line_items_def jp p4 line_eval content_items_def c4 set_content_def)
  have sp: "split_nl (concat ?chunks)
              = ['': keep-alive'', ?l1, [], ?l2, [], ?l3, [], ?l4, [], ?l5, [], ''data: [DONE]'',
                 [], []]"
    by simp
  have li: "lines_items ref_runtime (Some ?pctx) () (Some ?sctx) (?st [] []) (split_nl (concat ?chunks))
              = ([Forwarded ('': keep-alive'' @ nl), Forwarded (?l1 @ nl @ nl),
                  Event (?e ''Hi ''), Event (?e ''Alice, key ''), Event (?e ''sk-123 ''),
                  Forwarded (?l5 @ nl @ nl), Forwarded (''data: [DONE]'' @ nl @ nl)],
                 ?st [] ''[[S'')"
    unfolding sp by (simp add: i0 i1 i2 i3 i4 i5)
  have 1: "\<forall>c\<in>set ?chunks. line_aligned c"
    by (simp add: line_aligned_def)
  have 2: "\<forall>line\<in>set (split_nl (concat ?chunks)). text_line ref_runtime line"
    unfolding sp text_line_def jp by (simp add: p1 p2 p3 p4 p5 line_eval)
  have pfree: "overlap_free ?pctx"
    by (simp add: overlap_free_def startsWith_def upt_rec [of _ "length _"])
  have sfree: "overlap_free ?sctx"
    by (simp add: overlap_free_def startsWith_def upt_rec [of _ "length _"])
  have 3: "pii_step_meets ref_runtime (Some ?pctx) () (unmask ?pctx)"
    unfolding pii_step_meets_def
    using ref_stream_chunk_contract [OF pfree]
    by (simp add: ref_runtime_def ref_flush_buffer_def) (simp add: unmask_def)
  have 4: "secrets_step_meets ref_runtime (Some ?sctx) (unmask ?sctx)"
    unfolding secrets_step_meets_def
    using ref_stream_chunk_contract [OF sfree]
    by (simp add: ref_runtime_def ref_flush_buffer_def) (simp add: unmask_def)
  have buf: "buffers_at_end ref_runtime (Some ?pctx) () (Some ?sctx) (concat ?chunks) = ?st [] ''[[S''"
    unfolding buffers_at_end_items li by simp
  have fl: "flush_items ref_runtime (Some ?pctx) () (Some ?sctx) (?st [] ''[[S'')
              = [Event (finalEvent ref_runtime ''[[S'')]"
    by (simp add: flush_items_def flush_text_def ref_runtime_def ref_flush_buffer_def unmask_def
        find_token_def startsWith_def finalEvent_def)
  have items: "stream_items ref_runtime (Some ?pctx) () (Some ?sctx) (concat ?chunks)
     = [Forwarded ('': keep-alive'' @ nl), Forwarded (?l1 @ nl @ nl),
        Event (?e ''Hi ''), Event (?e ''Alice, key ''), Event (?e ''sk-123 ''),
        Forwarded (?l5 @ nl @ nl), Forwarded (''data: [DONE]'' @ nl @ nl),
        Event (finalEvent ref_runtime ''[[S'')]"
    unfolding stream_items_def content_part_def buf fl li by simp
  have stxt: "stream_text ref_runtime (concat ?chunks) = ''Hi [[PERSON_1]], key [[SECRET_1]] [[S''"
    unfolding stream_text_def sp line_content_def jp
    by (simp add: p1 p2 p3 p4 p5 line_eval)
  have pb: "piiBuffer (buffers_at_end ref_runtime (Some ?pctx) () (Some ?sctx) (concat ?chunks)) = []"
    unfolding buf by simp
  note T = line_aligned_round_trip [of ?chunks ref_runtime "Some ?pctx" "()" "unmask ?pctx"
      "Some ?sctx" "unmask ?sctx", OF 1 2 3 4]
  have a: "createUnmaskingStream ref_runtime (map Value ?chunks @ [Done]) (Some ?pctx) ()
             (Some ?sctx)
           = (map (render ref_runtime)
                (stream_items ref_runtime (Some ?pctx) () (Some ?sctx) (concat ?chunks)), Closed)"
    by (rule T [THEN conjunct2, THEN conjunct1])
  have b: "delivered ref_runtime
             (stream_items ref_runtime (Some ?pctx) () (Some ?sctx) (concat ?chunks))
           = unmask ?sctx (unmask ?pctx (stream_text ref_runtime (concat ?chunks)))"
    by (rule T [THEN conjunct2, THEN conjunct2, THEN conjunct2, THEN conjunct2, THEN conjunct2,
          THEN mp, OF disjI2, OF pb])
  have c: "unmask ?sctx (unmask ?pctx ''Hi [[PERSON_1]], key [[SECRET_1]] [[S'')
             = ''Hi Alice, key sk-123 [[S''"
    by (simp add: unmask_def find_token_def startsWith_def)
  have r: \<open>map (render ref_runtime)
       [Forwarded ('': keep-alive'' @ nl), Forwarded (?l1 @ nl @ nl),
        Event (?e ''Hi ''), Event (?e ''Alice, key ''), Event (?e ''sk-123 ''),
        Forwarded (?l5 @ nl @ nl), Forwarded (''data: [DONE]'' @ nl @ nl),
        Event (finalEvent ref_runtime ''[[S'')]
     = ['': keep-alive'' @ nl,
       ''data: {"choices":[{"index":0,"delta":{"role":"assistant"},"finish_reason":null}]}''
         @ nl @ nl,
       ''data: {"choices":[{"index":0,"delta":{"content":"Hi "}}]}'' @ nl @ nl,
       ''data: {"choices":[{"index":0,"delta":{"content":"Alice, key "}}]}'' @ nl @ nl,
       ''data: {"choices":[{"index":0,"delta":{"content":"sk-123 "}}]}'' @ nl @ nl,
       ''data: {"choices":[{"index":0,"delta":{},"finish_reason":"stop"}]}'' @ nl @ nl,
       ''data: [DONE]'' @ nl @ nl,
       ''data: {"id":"flush-1700000000123","object":"chat.completion.chunk","created":1700000000,"choices":[{"index":0,"delta":{"content":"[[S"},"finish_reason":null}]}''
         @ nl @ nl]\<close>
    by (simp add: ref_runtime_def finalEvent_def quote_def escape_char_def digit_char_def)
  show ?thesis
    using a [unfolded items r] b [unfolded items stxt] c by simp
qed

end
